theory Spec2Isabelle
  imports Main "HOL-Library.Char_ord" "HOL-Library.List_Lexorder" "HOL-Library.Multiset"
begin

section \<open>MADCounter: the model\<close>

text \<open>
  A shallow embedding of \<^verbatim>\<open>MADCounter.c\<close>. Conventions:
  \<^item> a C string is the \<open>string\<close> of its bytes before the terminating NUL; a byte is a
    \<open>char\<close>, read as a number by \<open>of_char\<close> (0 to 255, the value of an
    \<^verbatim>\<open>unsigned char\<close>);
  \<^item> the linked list of \<^verbatim>\<open>WORD\<close> nodes is the list of its nodes in
    \<^verbatim>\<open>nextWord\<close> order, the head first; \<^verbatim>\<open>NULL\<close> is the empty list, and the
    \<^verbatim>\<open>prevWord\<close> chain is the same list read backwards;
  \<^item> the \<^verbatim>\<open>int\<close> counters of the word and line collections are \<open>int\<close>: they count
    the words or lines of one file, and signed overflow (undefined in C) needs an input
    of more than \<open>2^31 - 1\<close> bytes;
  \<^item> the \<^verbatim>\<open>int\<close> counters of the character tally, and the size of the file where it
    is converted to \<^verbatim>\<open>int\<close>, have 32 bits (\<open>int32\<close>); the size of the file itself, a
    \<^verbatim>\<open>long\<close>, is the length of the content;
  \<^item> \<^verbatim>\<open>malloc\<close> is taken to succeed (the program exits where it checks the result);
  \<^item> a read or write outside an array is undefined behaviour in C; the model returns
    a \<open>fault\<close> there, and nothing is claimed about a run that faults.
\<close>

subsection \<open>Constants\<close>

definition MAX_WORD_LENGTH :: nat where "MAX_WORD_LENGTH = 1000"
definition MAX_LINE_LENGTH :: nat where "MAX_LINE_LENGTH = 10000"
definition MAX_BATCH_LINE_LENGTH :: nat where "MAX_BATCH_LINE_LENGTH = 10000"
definition ASCII_RANGE :: nat where "ASCII_RANGE = 128"
definition MAX_TOKENS :: nat where "MAX_TOKENS = 100"

text \<open>The capacity of the array \<^verbatim>\<open>malloc(sizeof(WORD *) * 1000)\<close> of the longest-token
  functions.\<close>

definition LONGEST_CAPACITY :: nat where "LONGEST_CAPACITY = 1000"

datatype flag = FLAG_C | FLAG_W | FLAG_L | FLAG_LW | FLAG_LL

datatype fault = BufferOverflow | IndexOutOfBounds | Uninitialised | NullPointer

subsection \<open>The C library, as far as the program uses it\<close>

definition NL :: char where "NL = CHR 0x0A"
definition TAB :: char where "TAB = CHR 0x09"
definition NUL :: char where "NUL = CHR 0x00"

text \<open>The C string held by a buffer: the bytes before the first NUL.\<close>

definition cstr :: "string \<Rightarrow> string" where
  "cstr buf = takeWhile (\<lambda>c. c \<noteq> NUL) buf"

text \<open>\<^verbatim>\<open>strcmp\<close> compares byte by byte as \<^verbatim>\<open>unsigned char\<close>; the C standard fixes
  the sign of the result only, and the program tests nothing else.\<close>

fun strcmp :: "string \<Rightarrow> string \<Rightarrow> int" where
  "strcmp [] [] = 0"
| "strcmp [] (b # bs) = -1"
| "strcmp (a # as) [] = 1"
| "strcmp (a # as) (b # bs) =
     (if a = b then strcmp as bs
      else if (of_char a :: nat) < of_char b then -1 else 1)"

text \<open>\<^verbatim>\<open>isspace\<close> in the C locale: space, and the bytes 9 to 13.\<close>

definition isspace :: "char \<Rightarrow> bool" where
  "isspace c = (c = CHR 0x20 \<or> (9 \<le> (of_char c :: nat) \<and> (of_char c :: nat) \<le> 13))"

text \<open>\<^verbatim>\<open>fscanf(fp, "%s", buffer)\<close> on the rest of a stream: skip white space, then
  take the bytes up to the next white space. \<open>None\<close> is the return value \<^verbatim>\<open>EOF\<close>;
  otherwise the bytes stored and the rest of the stream.\<close>

definition fscanf_s :: "string \<Rightarrow> (string \<times> string) option" where
  "fscanf_s stream =
     (let s = dropWhile isspace stream
      in if s = [] then None
         else Some (takeWhile (\<lambda>c. \<not> isspace c) s, dropWhile (\<lambda>c. \<not> isspace c) s))"

text \<open>\<^verbatim>\<open>fgets(buffer, n, fp)\<close>: at most \<open>n - 1\<close> bytes, stopping after a newline,
  which is stored. \<open>None\<close> is the return value \<^verbatim>\<open>NULL\<close> at the end of the stream.\<close>

fun fgets_read :: "nat \<Rightarrow> string \<Rightarrow> string \<times> string" where
  "fgets_read 0 s = ([], s)"
| "fgets_read (Suc k) [] = ([], [])"
| "fgets_read (Suc k) (c # s) =
     (if c = NL then ([c], s)
      else (case fgets_read k s of (l, r) \<Rightarrow> (c # l, r)))"

definition fgets :: "nat \<Rightarrow> string \<Rightarrow> (string \<times> string) option" where
  "fgets n stream = (if stream = [] then None else Some (fgets_read (n - 1) stream))"

text \<open>The idiom
  \<^verbatim>\<open>if (buffer[strlen(buffer) - 1] == '\n') buffer[strlen(buffer) - 1] = '\0';\<close>
  on the buffer \<^verbatim>\<open>fgets\<close> filled. When the buffer starts with a NUL byte, the index
  is \<open>-1\<close>.\<close>

definition stripNewline :: "string \<Rightarrow> fault + string" where
  "stripNewline buffer =
     (let s = cstr buffer
      in if s = [] then Inl IndexOutOfBounds
         else if last s = NL then Inr (butlast s) else Inr s)"

text \<open>\<^verbatim>\<open>strtok(s, " ")\<close>, then \<^verbatim>\<open>strtok(NULL, " ")\<close>: the next run of bytes other
  than the space, and what is left after its delimiter.\<close>

definition strtok :: "string \<Rightarrow> (string \<times> string) option" where
  "strtok s =
     (let t = dropWhile (\<lambda>c. c = CHR 0x20) s
      in if t = [] then None
         else Some (takeWhile (\<lambda>c. c \<noteq> CHR 0x20) t, drop 1 (dropWhile (\<lambda>c. c \<noteq> CHR 0x20) t)))"

text \<open>A value as an \<^verbatim>\<open>int\<close> of 32 bits holds it: what does not fit is taken modulo
  \<open>2^32\<close> into the range from \<open>-2^31\<close> to \<open>2^31 - 1\<close>. This is the conversion of a
  \<^verbatim>\<open>long\<close> to \<^verbatim>\<open>int\<close>, and what \<^verbatim>\<open>++\<close> on an \<^verbatim>\<open>int\<close> computes on a two's
  complement machine (for the C standard an overflow of \<^verbatim>\<open>++\<close> is undefined).\<close>

definition int32 :: "int \<Rightarrow> int" where
  "int32 n = (n + 2147483648) mod 4294967296 - 2147483648"

text \<open>\<^verbatim>\<open>%d\<close> of \<^verbatim>\<open>printf\<close>.\<close>

fun digits :: "nat \<Rightarrow> string" where
  "digits n = (if n < 10 then [char_of (48 + n)] else digits (n div 10) @ [char_of (48 + n mod 10)])"

declare digits.simps [simp del]

definition show_int :: "int \<Rightarrow> string" where
  "show_int i = (if i < 0 then CHR ''-'' # digits (nat (- i)) else digits (nat i))"

subsection \<open>The token collection\<close>

record WORD =
  contents :: string
  numChars :: int
  frequency :: int
  orderAppeared :: int

text \<open>The first loop of \<^verbatim>\<open>insertWord\<close>: walk the list; at the first node whose text
  equals the word, add one to its frequency and return the head. \<open>None\<close>: the loop ran
  to \<^verbatim>\<open>NULL\<close>.\<close>

fun findDuplicate :: "WORD list \<Rightarrow> string \<Rightarrow> WORD list option" where
  "findDuplicate [] word = None"
| "findDuplicate (current # rest) word =
     (if strcmp (contents current) word = 0
      then Some (current\<lparr>frequency := frequency current + 1\<rparr> # rest)
      else map_option (\<lambda>l. current # l) (findDuplicate rest word))"

text \<open>The second loop and the two splices, for a head that is not \<^verbatim>\<open>NULL\<close>:
  \<^verbatim>\<open>current\<close> moves on while it has a successor and its text is below the word; the
  new node then goes before \<^verbatim>\<open>current\<close> when its text is above the word, and after
  it otherwise.\<close>

fun spliceNode :: "WORD list \<Rightarrow> WORD \<Rightarrow> WORD list" where
  "spliceNode [] newNode = [newNode]"
| "spliceNode (current # rest) newNode =
     (if rest \<noteq> [] \<and> strcmp (contents current) (contents newNode) < 0
      then current # spliceNode rest newNode
      else if strcmp (contents current) (contents newNode) > 0
      then newNode # current # rest
      else current # newNode # rest)"

definition allocNode :: "string \<Rightarrow> int \<Rightarrow> WORD" where
  "allocNode word position =
     \<lparr>contents = word, numChars = int (length word), frequency = 1, orderAppeared = position\<rparr>"

definition insertWord :: "WORD list \<Rightarrow> string \<Rightarrow> int \<Rightarrow> WORD list" where
  "insertWord head word position =
     (case findDuplicate head word of
        Some head' \<Rightarrow> head'
      | None \<Rightarrow> if head = [] then [allocNode word position]
                else spliceNode head (allocNode word position))"

text \<open>\<^verbatim>\<open>insertLine\<close> is \<^verbatim>\<open>insertWord\<close> statement for statement, with
  \<^verbatim>\<open>line\<close> for \<^verbatim>\<open>word\<close>.\<close>

definition insertLine :: "WORD list \<Rightarrow> string \<Rightarrow> int \<Rightarrow> WORD list" where
  "insertLine head line position =
     (case findDuplicate head line of
        Some head' \<Rightarrow> head'
      | None \<Rightarrow> if head = [] then [allocNode line position]
                else spliceNode head (allocNode line position))"

text \<open>\<^verbatim>\<open>buildWordList\<close>: the reading loop. A run of 1000 bytes or more does not fit
  \<^verbatim>\<open>buffer[MAX_WORD_LENGTH]\<close> with its terminator.\<close>

lemma fscanf_s_shorter: "fscanf_s stream = Some (tok, rest) \<Longrightarrow> length rest < length stream"
proof -
  assume a: "fscanf_s stream = Some (tok, rest)"
  define s where "s = dropWhile isspace stream"
  from a have ne: "s \<noteq> []" and r: "rest = dropWhile (\<lambda>c. \<not> isspace c) s"
    by (auto simp: fscanf_s_def s_def Let_def split: if_splits)
  from ne have "\<not> isspace (hd s)"
    unfolding s_def by (rule hd_dropWhile)
  with ne have "length (dropWhile (\<lambda>c. \<not> isspace c) s) < length s"
    by (cases s) (auto intro: le_imp_less_Suc length_dropWhile_le)
  moreover have "length s \<le> length stream"
    unfolding s_def by (rule length_dropWhile_le)
  ultimately show ?thesis using r by simp
qed

function wordLoop :: "string \<Rightarrow> WORD list \<Rightarrow> int \<Rightarrow> int \<Rightarrow> fault + (WORD list \<times> int)" where
  "wordLoop stream head totalWords wordIndex =
     (case fscanf_s stream of
        None \<Rightarrow> Inr (head, totalWords)
      | Some (buffer, rest) \<Rightarrow>
          if MAX_WORD_LENGTH \<le> length buffer then Inl BufferOverflow
          else wordLoop rest (insertWord head (cstr buffer) wordIndex)
                 (totalWords + 1) (wordIndex + 1))"
  by pat_completeness auto
termination
  by (relation "measure (\<lambda>(stream, head, totalWords, wordIndex). length stream)")
     (auto simp: fscanf_s_shorter)

declare wordLoop.simps [simp del]

definition buildWordList :: "string \<Rightarrow> fault + (WORD list \<times> int \<times> int)" where
  "buildWordList fp =
     (case wordLoop fp [] 0 0 of
        Inl f \<Rightarrow> Inl f
      | Inr (head, totalWords) \<Rightarrow> Inr (head, totalWords, int (length head)))"

definition printWordAnalysis :: "WORD list \<Rightarrow> int \<Rightarrow> int \<Rightarrow> string" where
  "printWordAnalysis wordHead totalWords uniqueWords =
     ''Total Number of Words: '' @ show_int totalWords @ [NL] @
     ''Total Unique Words: '' @ show_int uniqueWords @ [NL, NL] @
     concat (map (\<lambda>current.
       ''Word: '' @ contents current @ '', Freq: '' @ show_int (frequency current) @
       '', Initial Position: '' @ show_int (orderAppeared current) @ [NL]) wordHead)"

text \<open>\<^verbatim>\<open>buildLineList\<close>: the same loop over \<^verbatim>\<open>fgets\<close>.\<close>

lemma fgets_read_shorter: "s \<noteq> [] \<Longrightarrow> fgets_read (Suc k) s = (l, r) \<Longrightarrow> length r < length s"
proof -
  have le: "\<And>l r. fgets_read k s = (l, r) \<Longrightarrow> length r \<le> length s" for k s
  proof (induction k s rule: fgets_read.induct)
    case (3 k c s)
    then show ?case by (auto split: if_splits prod.splits)
  qed auto
  assume "s \<noteq> []" "fgets_read (Suc k) s = (l, r)"
  then show ?thesis
    by (cases s) (auto split: if_splits prod.splits dest: le intro: le_imp_less_Suc)
qed

lemma fgets_shorter: "1 < n \<Longrightarrow> fgets n stream = Some (l, rest) \<Longrightarrow> length rest < length stream"
  by (cases n; cases "n - 1") (auto simp: fgets_def fgets_read_shorter split: if_splits)

function lineLoop :: "string \<Rightarrow> WORD list \<Rightarrow> int \<Rightarrow> int \<Rightarrow> fault + (WORD list \<times> int)" where
  "lineLoop stream head totalLines lineIndex =
     (case fgets MAX_LINE_LENGTH stream of
        None \<Rightarrow> Inr (head, totalLines)
      | Some (buffer, rest) \<Rightarrow>
          (case stripNewline buffer of
             Inl f \<Rightarrow> Inl f
           | Inr line \<Rightarrow> lineLoop rest (insertLine head line lineIndex)
                          (totalLines + 1) (lineIndex + 1)))"
  by pat_completeness auto
termination
  by (relation "measure (\<lambda>(stream, head, totalLines, lineIndex). length stream)")
     (auto simp: MAX_LINE_LENGTH_def intro: fgets_shorter [of 10000])

declare lineLoop.simps [simp del]

definition buildLineList :: "string \<Rightarrow> fault + (WORD list \<times> int \<times> int)" where
  "buildLineList fp =
     (case lineLoop fp [] 0 0 of
        Inl f \<Rightarrow> Inl f
      | Inr (head, totalLines) \<Rightarrow> Inr (head, totalLines, int (length head)))"

definition printLineAnalysis :: "WORD list \<Rightarrow> int \<Rightarrow> int \<Rightarrow> string" where
  "printLineAnalysis lineHead totalLines uniqueLines =
     ''Total Number of Lines: '' @ show_int totalLines @ [NL] @
     ''Total Unique Lines: '' @ show_int uniqueLines @ [NL, NL] @
     concat (map (\<lambda>current.
       ''Line: '' @ contents current @ '', Freq: '' @ show_int (frequency current) @
       '', Initial Position: '' @ show_int (orderAppeared current) @ [NL]) lineHead)"

subsection \<open>The longest tokens\<close>

text \<open>The three passes of \<^verbatim>\<open>printLongestWord\<close>: the greatest \<^verbatim>\<open>numChars\<close>, starting
  from 0; the nodes of that length, stored in an array of 1000 pointers with no check of
  the index; and the exchange sort of that array by text.\<close>

fun maxLengthLoop :: "WORD list \<Rightarrow> int \<Rightarrow> int" where
  "maxLengthLoop [] maxLength = maxLength"
| "maxLengthLoop (current # rest) maxLength =
     maxLengthLoop rest (if numChars current > maxLength then numChars current else maxLength)"

fun collectLoop :: "WORD list \<Rightarrow> int \<Rightarrow> WORD list \<Rightarrow> fault + WORD list" where
  "collectLoop [] maxLength longest = Inr longest"
| "collectLoop (current # rest) maxLength longest =
     (if numChars current = maxLength
      then if length longest < LONGEST_CAPACITY
           then collectLoop rest maxLength (longest @ [current])
           else Inl BufferOverflow
      else collectLoop rest maxLength longest)"

definition swapIfGreater :: "WORD list \<Rightarrow> nat \<Rightarrow> nat \<Rightarrow> WORD list" where
  "swapIfGreater a i j =
     (if strcmp (contents (a ! i)) (contents (a ! j)) > 0 then a[i := a ! j, j := a ! i] else a)"

lemma length_swapIfGreater [simp]: "length (swapIfGreater a i j) = length a"
  by (simp add: swapIfGreater_def)

function sortInner :: "WORD list \<Rightarrow> nat \<Rightarrow> nat \<Rightarrow> WORD list" where
  "sortInner a i j = (if j < length a then sortInner (swapIfGreater a i j) i (j + 1) else a)"
  by pat_completeness auto
termination
  by (relation "measure (\<lambda>(a, i, j). length a - j)") auto

declare sortInner.simps [simp del]

lemma length_sortInner [simp]: "length (sortInner a i j) = length a"
  by (induction a i j rule: sortInner.induct) (subst sortInner.simps, simp)

function sortOuter :: "WORD list \<Rightarrow> nat \<Rightarrow> WORD list" where
  "sortOuter a i = (if i + 1 < length a then sortOuter (sortInner a i (i + 1)) (i + 1) else a)"
  by pat_completeness auto
termination
  by (relation "measure (\<lambda>(a, i). length a - i)") auto

declare sortOuter.simps [simp del]

definition printLongestWord :: "WORD list \<Rightarrow> fault + string" where
  "printLongestWord wordHead =
     (if wordHead = [] then Inr []
      else let maxLength = maxLengthLoop wordHead 0
           in case collectLoop wordHead maxLength [] of
                Inl f \<Rightarrow> Inl f
              | Inr longestWords \<Rightarrow>
                  Inr (''Longest Word is '' @ show_int maxLength @ '' characters long:'' @ [NL] @
                       concat (map (\<lambda>w. [TAB] @ contents w @ [NL]) (sortOuter longestWords 0))))"

definition printLongestLine :: "WORD list \<Rightarrow> fault + string" where
  "printLongestLine lineHead =
     (if lineHead = [] then Inr []
      else let maxLength = maxLengthLoop lineHead 0
           in case collectLoop lineHead maxLength [] of
                Inl f \<Rightarrow> Inl f
              | Inr longestLines \<Rightarrow>
                  Inr (''Longest Line is '' @ show_int maxLength @ '' characters long:'' @ [NL] @
                       concat (map (\<lambda>w. [TAB] @ contents w @ [NL]) (sortOuter longestLines 0))))"

subsection \<open>The character tally\<close>

text \<open>\<^verbatim>\<open>analyzeCharacters\<close>: both arrays have 128 entries and are indexed by the byte
  read, with no check; a byte of 128 or more is outside them. The counts, the position
  and the unique count are \<^verbatim>\<open>int\<close> variables, each raised by \<^verbatim>\<open>++\<close> or
  \<^verbatim>\<open>+= 1\<close>.\<close>

fun charLoop ::
  "string \<Rightarrow> int list \<Rightarrow> int list \<Rightarrow> int \<Rightarrow> int \<Rightarrow> fault + (int list \<times> int list \<times> int)" where
  "charLoop [] charFrequency charFirstPos uniqueCharCount charPosition =
     Inr (charFrequency, charFirstPos, uniqueCharCount)"
| "charLoop (ch # rest) charFrequency charFirstPos uniqueCharCount charPosition =
     (let c = of_char ch
      in if ASCII_RANGE \<le> c then Inl IndexOutOfBounds
         else if charFrequency ! c = 0
         then charLoop rest (charFrequency[c := int32 (charFrequency ! c + 1)])
                (charFirstPos[c := charPosition]) (int32 (uniqueCharCount + 1))
                (int32 (charPosition + 1))
         else charLoop rest (charFrequency[c := int32 (charFrequency ! c + 1)])
                charFirstPos uniqueCharCount (int32 (charPosition + 1)))"

definition analyzeCharacters :: "string \<Rightarrow> fault + (int list \<times> int list \<times> int)" where
  "analyzeCharacters fp = charLoop fp (replicate ASCII_RANGE 0) (replicate ASCII_RANGE 0) 0 0"

text \<open>One line of the character section, for an index whose count is positive.\<close>

definition charLine :: "int list \<Rightarrow> int list \<Rightarrow> nat \<Rightarrow> string" where
  "charLine charFrequency charFirstPos i =
     ''Ascii Value: '' @ show_int (int i) @ '', Char: '' @ [char_of i] @
     '', Count: '' @ show_int (charFrequency ! i) @
     '', Initial Position: '' @ show_int (charFirstPos ! i) @ [NL]"

definition printCharacterAnalysis :: "int list \<Rightarrow> int list \<Rightarrow> int \<Rightarrow> int \<Rightarrow> string" where
  "printCharacterAnalysis charFrequency charFirstPos totalCharCount uniqueCharCount =
     ''Total Number of Chars = '' @ show_int totalCharCount @ [NL] @
     ''Total Unique Chars = '' @ show_int uniqueCharCount @ [NL, NL] @
     concat (map (\<lambda>i. if charFrequency ! i > 0 then charLine charFrequency charFirstPos i else [])
       [0..<ASCII_RANGE])"

subsection \<open>Files and the standard output\<close>

text \<open>What the program sees of its environment: the files it can open for reading, with
  their content; the paths \<^verbatim>\<open>fopen(path, "w")\<close> succeeds on; and what has been written
  to the standard output. A path names one file, and a stream opened for reading
  delivers the content the file had when it was opened. (C leaves it to the
  implementation what happens when a file is opened for writing while a stream reads it;
  nothing is claimed here about a run whose output path names a file it reads.)\<close>

record world =
  files :: "string \<Rightarrow> string option"
  writable :: "string \<Rightarrow> bool"
  stdout :: string

definition printf :: "string \<Rightarrow> world \<Rightarrow> world" where
  "printf text st = st\<lparr>stdout := stdout st @ text\<rparr>"

definition printUsageError :: "world \<Rightarrow> world" where
  "printUsageError st =
     printf (''USAGE:'' @ [NL] @
             [TAB] @ ''./MADCounter -f <input file> -o <output file> -c -w -l -Lw -Ll'' @ [NL] @
             [TAB, TAB] @ ''OR'' @ [NL] @
             [TAB] @ ''./MADCounter -B <batch file>'' @ [NL]) st"

definition printInvalidFlagError :: "world \<Rightarrow> world" where
  "printInvalidFlagError st = printf (''ERROR: Invalid Flag Types'' @ [NL]) st"

definition printBatchOpenError :: "world \<Rightarrow> world" where
  "printBatchOpenError st = printf (''ERROR: Can't open batch file'' @ [NL]) st"

definition printBatchEmptyError :: "world \<Rightarrow> world" where
  "printBatchEmptyError st = printf (''ERROR: Batch File Empty'' @ [NL]) st"

definition printNoInputFileError :: "world \<Rightarrow> world" where
  "printNoInputFileError st = printf (''ERROR: No Input File Provided'' @ [NL]) st"

definition printInputFileError :: "world \<Rightarrow> world" where
  "printInputFileError st = printf (''ERROR: Can't open input file'' @ [NL]) st"

definition printNoOutputFileError :: "world \<Rightarrow> world" where
  "printNoOutputFileError st = printf (''ERROR: No Output File Provided'' @ [NL]) st"

definition printInputFileEmptyError :: "world \<Rightarrow> world" where
  "printInputFileEmptyError st = printf (''ERROR: Input File Empty'' @ [NL]) st"

subsection \<open>Arguments\<close>

text \<open>The variables \<^verbatim>\<open>parseArguments\<close> writes through its pointer parameters.
  \<^verbatim>\<open>flagCount\<close> is the length of \<open>flagOrder\<close>.\<close>

record arguments =
  inputFile :: "string option"
  outputFile :: "string option"
  requestCharAnalysis :: bool
  requestWordAnalysis :: bool
  requestLineAnalysis :: bool
  requestLongestWord :: bool
  requestLongestLine :: bool
  flagOrder :: "flag list"

definition noArguments :: arguments where
  "noArguments =
     \<lparr>inputFile = None, outputFile = None, requestCharAnalysis = False,
      requestWordAnalysis = False, requestLineAnalysis = False, requestLongestWord = False,
      requestLongestLine = False, flagOrder = []\<rparr>"

text \<open>\<^verbatim>\<open>arg[0] == '-'\<close>\<close>

definition startsWithDash :: "string \<Rightarrow> bool" where
  "startsWithDash arg = (case arg of [] \<Rightarrow> False | c # _ \<Rightarrow> c = CHR ''-'')"

text \<open>The loop over \<^verbatim>\<open>argv[i]\<close>, on the arguments from \<open>i\<close> on. \<open>None\<close> is the return
  value 0, after the message has been printed.\<close>

fun parseLoop :: "string list \<Rightarrow> arguments \<Rightarrow> world \<Rightarrow> world \<times> arguments option" where
  "parseLoop [] a st = (st, Some a)"
| "parseLoop (arg # rest) a st =
     (if startsWithDash arg then
        if arg = ''-f'' then
          (case rest of
             [] \<Rightarrow> (printNoInputFileError st, None)
           | nextArg # rest' \<Rightarrow>
               if startsWithDash nextArg then (printNoInputFileError st, None)
               else parseLoop rest' (a\<lparr>inputFile := Some nextArg\<rparr>) st)
        else if arg = ''-o'' then
          (case rest of
             [] \<Rightarrow> (printNoOutputFileError st, None)
           | nextArg # rest' \<Rightarrow>
               if startsWithDash nextArg then (printNoOutputFileError st, None)
               else parseLoop rest' (a\<lparr>outputFile := Some nextArg\<rparr>) st)
        else if arg = ''-c'' then
          parseLoop rest
            (a\<lparr>flagOrder := (if \<not> requestCharAnalysis a then flagOrder a @ [FLAG_C] else flagOrder a),
               requestCharAnalysis := True\<rparr>) st
        else if arg = ''-w'' then
          parseLoop rest
            (a\<lparr>flagOrder := (if \<not> requestWordAnalysis a then flagOrder a @ [FLAG_W] else flagOrder a),
               requestWordAnalysis := True\<rparr>) st
        else if arg = ''-l'' then
          parseLoop rest
            (a\<lparr>flagOrder := (if \<not> requestLineAnalysis a then flagOrder a @ [FLAG_L] else flagOrder a),
               requestLineAnalysis := True\<rparr>) st
        else if arg = ''-Lw'' then
          parseLoop rest
            (a\<lparr>flagOrder := (if \<not> requestLongestWord a then flagOrder a @ [FLAG_LW] else flagOrder a),
               requestLongestWord := True\<rparr>) st
        else if arg = ''-Ll'' then
          parseLoop rest
            (a\<lparr>flagOrder := (if \<not> requestLongestLine a then flagOrder a @ [FLAG_LL] else flagOrder a),
               requestLongestLine := True\<rparr>) st
        else (printInvalidFlagError st, None)
      else (printInvalidFlagError st, None))"

text \<open>\<^verbatim>\<open>parseArguments\<close>: the loop starts at \<^verbatim>\<open>argv[1]\<close>; an input file is
  required.\<close>

definition parseArguments :: "string list \<Rightarrow> world \<Rightarrow> world \<times> arguments option" where
  "parseArguments argv st =
     (case parseLoop (drop 1 argv) noArguments st of
        (st', None) \<Rightarrow> (st', None)
      | (st', Some a) \<Rightarrow>
          if inputFile a = None then (printNoInputFileError st', None) else (st', Some a))"

subsection \<open>One request\<close>

text \<open>Phase 1 of \<^verbatim>\<open>analyzeFile\<close>: what is built from the input, each from the start of
  the file. The two character arrays are local variables, initialised by
  \<^verbatim>\<open>analyzeCharacters\<close> only.\<close>

record artifacts =
  charData :: "(int list \<times> int list) option"
  uniqueCharCount :: int
  wordHead :: "WORD list"
  totalWords :: int
  uniqueWords :: int
  lineHead :: "WORD list"
  totalLines :: int
  uniqueLines :: int

definition buildPhase :: "arguments \<Rightarrow> string \<Rightarrow> fault + artifacts" where
  "buildPhase r content =
     (case (if requestCharAnalysis r
            then (case analyzeCharacters content of
                    Inl f \<Rightarrow> Inl f
                  | Inr (charFrequency, charFirstPos, n) \<Rightarrow>
                      Inr (Some (charFrequency, charFirstPos), n))
            else Inr (None, 0)) of
        Inl f \<Rightarrow> Inl f
      | Inr (cd, ucc) \<Rightarrow>
     (case (if requestWordAnalysis r \<or> requestLongestWord r
            then buildWordList content else Inr ([], 0, 0)) of
        Inl f \<Rightarrow> Inl f
      | Inr (wh, tws, uws) \<Rightarrow>
     (case (if requestLineAnalysis r \<or> requestLongestLine r
            then buildLineList content else Inr ([], 0, 0)) of
        Inl f \<Rightarrow> Inl f
      | Inr (lh, tls, uls) \<Rightarrow>
          Inr \<lparr>charData = cd, uniqueCharCount = ucc, wordHead = wh, totalWords = tws,
               uniqueWords = uws, lineHead = lh, totalLines = tls, uniqueLines = uls\<rparr>)))"

text \<open>Phase 2: the body of the \<^verbatim>\<open>switch\<close>. \<open>Some text\<close> is what the case printed,
  with \<^verbatim>\<open>firstSection = 0\<close> set; \<open>None\<close>: the case printed nothing and left
  \<^verbatim>\<open>firstSection\<close> as it was. \<open>fileSize\<close> is the \<^verbatim>\<open>long\<close> that \<^verbatim>\<open>ftell\<close>
  returned; the character case passes \<^verbatim>\<open>(int)fileSize\<close>.\<close>

definition printSection :: "artifacts \<Rightarrow> int \<Rightarrow> flag \<Rightarrow> fault + string option" where
  "printSection a fileSize k =
     (case k of
        FLAG_C \<Rightarrow>
          (case charData a of
             None \<Rightarrow> Inl Uninitialised
           | Some (charFrequency, charFirstPos) \<Rightarrow>
               Inr (Some (printCharacterAnalysis charFrequency charFirstPos (int32 fileSize)
                            (uniqueCharCount a))))
      | FLAG_W \<Rightarrow>
          if wordHead a \<noteq> [] \<or> totalWords a = 0
          then Inr (Some (printWordAnalysis (wordHead a) (totalWords a) (uniqueWords a)))
          else Inr None
      | FLAG_L \<Rightarrow>
          if lineHead a \<noteq> [] \<or> totalLines a = 0
          then Inr (Some (printLineAnalysis (lineHead a) (totalLines a) (uniqueLines a)))
          else Inr None
      | FLAG_LW \<Rightarrow>
          if wordHead a \<noteq> []
          then (case printLongestWord (wordHead a) of
                  Inl f \<Rightarrow> Inl f | Inr text \<Rightarrow> Inr (Some text))
          else Inr None
      | FLAG_LL \<Rightarrow>
          if lineHead a \<noteq> []
          then (case printLongestLine (lineHead a) of
                  Inl f \<Rightarrow> Inl f | Inr text \<Rightarrow> Inr (Some text))
          else Inr None)"

text \<open>The \<^verbatim>\<open>for\<close> loop over \<^verbatim>\<open>flagOrder\<close>: the separator is printed at the top of
  each round in which \<^verbatim>\<open>firstSection\<close> is 0, before the \<^verbatim>\<open>switch\<close>. The result is
  all that the loop wrote to \<^verbatim>\<open>outputFP\<close>.\<close>

fun printLoop :: "flag list \<Rightarrow> artifacts \<Rightarrow> int \<Rightarrow> bool \<Rightarrow> fault + string" where
  "printLoop [] a fileSize firstSection = Inr []"
| "printLoop (k # ks) a fileSize firstSection =
     (let separator = (if \<not> firstSection then [NL] else [])
      in case printSection a fileSize k of
           Inl f \<Rightarrow> Inl f
         | Inr None \<Rightarrow>
             (case printLoop ks a fileSize firstSection of
                Inl f \<Rightarrow> Inl f | Inr out \<Rightarrow> Inr (separator @ out))
         | Inr (Some text) \<Rightarrow>
             (case printLoop ks a fileSize False of
                Inl f \<Rightarrow> Inl f | Inr out \<Rightarrow> Inr (separator @ text @ out)))"

definition report :: "arguments \<Rightarrow> string \<Rightarrow> fault + string" where
  "report r content =
     (case buildPhase r content of
        Inl f \<Rightarrow> Inl f
      | Inr a \<Rightarrow> printLoop (flagOrder r) a (int (length content)) True)"

text \<open>\<^verbatim>\<open>fopen(path, "w")\<close> leaves the file empty; \<^verbatim>\<open>fprintf\<close> on it appends.\<close>

definition fopen_w :: "string \<Rightarrow> world \<Rightarrow> world" where
  "fopen_w path st = st\<lparr>files := (files st)(path \<mapsto> [])\<rparr>"

definition fprintf :: "string \<Rightarrow> string \<Rightarrow> world \<Rightarrow> world" where
  "fprintf path text st =
     st\<lparr>files := (files st)(path \<mapsto> (case files st path of None \<Rightarrow> text | Some old \<Rightarrow> old @ text))\<rparr>"

text \<open>\<^verbatim>\<open>analyzeFile\<close>: the result is the new world and the return value (1 on success,
  0 on error).\<close>

definition analyzeFile :: "arguments \<Rightarrow> world \<Rightarrow> fault + (world \<times> int)" where
  "analyzeFile r st =
     (case inputFile r of
        None \<Rightarrow> Inl NullPointer
      | Some path \<Rightarrow>
     (case files st path of
        None \<Rightarrow> Inr (printInputFileError st, 0)
      | Some content \<Rightarrow>
          if length content = 0 then Inr (printInputFileEmptyError st, 0)
          else
            (case outputFile r of
               None \<Rightarrow>
                 (case report r content of
                    Inl f \<Rightarrow> Inl f
                  | Inr text \<Rightarrow> Inr (printf text st, 1))
             | Some out \<Rightarrow>
                 if \<not> writable st out
                 then Inr (printf (''ERROR: Can't open output file'' @ [NL]) st, 0)
                 else
                   (case report r content of
                      Inl f \<Rightarrow> Inl f
                    | Inr text \<Rightarrow> Inr (fprintf out text (fopen_w out st), 1)))))"

subsection \<open>Batch mode and \<^verbatim>\<open>main\<close>\<close>

lemma strtok_shorter: "strtok s = Some (token, rest) \<Longrightarrow> length rest < length s"
proof -
  assume a: "strtok s = Some (token, rest)"
  define t where "t = dropWhile (\<lambda>c. c = CHR 0x20) s"
  from a have ne: "t \<noteq> []" and r: "rest = drop 1 (dropWhile (\<lambda>c. c \<noteq> CHR 0x20) t)"
    by (auto simp: strtok_def t_def Let_def split: if_splits)
  from ne have "hd t \<noteq> CHR 0x20"
    using hd_dropWhile [of "\<lambda>c. c = CHR 0x20" s] by (simp add: t_def)
  with ne have "length (dropWhile (\<lambda>c. c \<noteq> CHR 0x20) t) < length t"
    by (cases t) (auto intro: le_imp_less_Suc length_dropWhile_le)
  moreover have "length t \<le> length s"
    unfolding t_def by (rule length_dropWhile_le)
  ultimately show ?thesis using r by simp
qed

text \<open>The \<^verbatim>\<open>strtok\<close> loop: \<^verbatim>\<open>tokens[1]\<close>, \<^verbatim>\<open>tokens[2]\<close>, ... in order, at
  most \<^verbatim>\<open>MAX_TOKENS\<close> of them.\<close>

function tokenLoop :: "string \<Rightarrow> nat \<Rightarrow> string list" where
  "tokenLoop s tokenCount =
     (case strtok s of
        None \<Rightarrow> []
      | Some (token, rest) \<Rightarrow>
          if tokenCount < MAX_TOKENS then token # tokenLoop rest (tokenCount + 1) else [])"
  by pat_completeness auto
termination
  by (relation "measure (\<lambda>(s, tokenCount). length s)") (auto simp: strtok_shorter)

declare tokenLoop.simps [simp del]

text \<open>The body of the \<^verbatim>\<open>do ... while\<close> loop of \<^verbatim>\<open>processBatchFile\<close>, on the
  buffer \<^verbatim>\<open>fgets\<close> filled.\<close>

definition processLine :: "string \<Rightarrow> world \<Rightarrow> fault + world" where
  "processLine buffer st =
     (case stripNewline buffer of
        Inl f \<Rightarrow> Inl f
      | Inr batchLine \<Rightarrow>
          if length batchLine = 0 then Inr st
          else
            let tokens = ''MADCounter'' # tokenLoop batchLine 0;
                batchArgc = length tokens
            in if 3 \<le> batchArgc
               then (case parseArguments tokens st of
                       (st', None) \<Rightarrow> Inr st'
                     | (st', Some r) \<Rightarrow>
                         (case analyzeFile r st' of
                            Inl f \<Rightarrow> Inl f
                          | Inr (st'', analyzeResult) \<Rightarrow> Inr st''))
               else Inr st)"

function batchLoop :: "string \<Rightarrow> string \<Rightarrow> world \<Rightarrow> fault + world" where
  "batchLoop batchLine stream st =
     (case processLine batchLine st of
        Inl f \<Rightarrow> Inl f
      | Inr st' \<Rightarrow>
          (case fgets MAX_BATCH_LINE_LENGTH stream of
             None \<Rightarrow> Inr st'
           | Some (nextLine, rest) \<Rightarrow> batchLoop nextLine rest st'))"
  by pat_completeness auto
termination
  by (relation "measure (\<lambda>(batchLine, stream, st). length stream)")
     (auto simp: MAX_BATCH_LINE_LENGTH_def intro: fgets_shorter [of 10000])

declare batchLoop.simps [simp del]

definition processBatchFile :: "string \<Rightarrow> world \<Rightarrow> fault + world" where
  "processBatchFile batchFilename st =
     (case files st batchFilename of
        None \<Rightarrow> Inr (printBatchOpenError st)
      | Some content \<Rightarrow>
          (case fgets MAX_BATCH_LINE_LENGTH content of
             None \<Rightarrow> Inr (printBatchEmptyError st)
           | Some (batchLine, rest) \<Rightarrow> batchLoop batchLine rest st))"

text \<open>\<^verbatim>\<open>main\<close>: the new world and the exit code.\<close>

definition main :: "string list \<Rightarrow> world \<Rightarrow> fault + (world \<times> int)" where
  "main argv st =
     (if length argv < 3 then Inr (printUsageError st, 1)
      else if argv ! 1 = ''-B''
      then (case processBatchFile (argv ! 2) st of
              Inl f \<Rightarrow> Inl f
            | Inr st' \<Rightarrow> Inr (st', 0))
      else (case parseArguments argv st of
              (st', None) \<Rightarrow> Inr (st', 1)
            | (st', Some r) \<Rightarrow>
                (case analyzeFile r st' of
                   Inl f \<Rightarrow> Inl f
                 | Inr (st'', analyzeResult) \<Rightarrow>
                     Inr (st'', if analyzeResult = 1 then 0 else 1))))"

section \<open>What the claims speak of\<close>

text \<open>The order of a collection: the texts strictly ascending, hence no text twice. The
  order \<open><\<close> on strings is the lexicographic one of \<open>HOL-Library.List_Lexorder\<close>
  (a proper prefix comes first) over the bytes ordered by their value
  (\<open>HOL-Library.Char_ord\<close>).\<close>

definition ordered :: "WORD list \<Rightarrow> bool" where
  "ordered c = (sorted_wrt (<) (map contents c) \<and> distinct (map contents c))"

text \<open>The collections that inserts build from the empty one.\<close>

inductive reachable :: "WORD list \<Rightarrow> bool" where
  reachable_empty: "reachable []"
| reachable_insertWord: "reachable c \<Longrightarrow> reachable (insertWord c word position)"
| reachable_insertLine: "reachable c \<Longrightarrow> reachable (insertLine c line position)"

text \<open>The indices the character section lists: those whose count is positive, in the
  order of the loop.\<close>

definition listedChars :: "int list \<Rightarrow> nat list" where
  "listedChars charFrequency = filter (\<lambda>i. charFrequency ! i > 0) [0..<ASCII_RANGE]"

text \<open>The tokens of a line: it is cut at every delimiter, and the pieces that are not
  empty are the tokens. \<open>spaceTokens\<close> cuts at the space only.\<close>

fun fieldsBy :: "(char \<Rightarrow> bool) \<Rightarrow> string \<Rightarrow> string list" where
  "fieldsBy d [] = [[]]"
| "fieldsBy d (c # cs) =
     (if d c then [] # fieldsBy d cs
      else (case fieldsBy d cs of [] \<Rightarrow> [[c]] | f # fs \<Rightarrow> (c # f) # fs))"

definition tokensBy :: "(char \<Rightarrow> bool) \<Rightarrow> string \<Rightarrow> string list" where
  "tokensBy d s = filter (\<lambda>t. t \<noteq> []) (fieldsBy d s)"

definition spaceTokens :: "string \<Rightarrow> string list" where
  "spaceTokens s = tokensBy (\<lambda>c. c = CHR 0x20) s"




text \<open>Following the spec's words for one line of the control file (the line without
  its newline): "For each non-empty line (blank lines are skipped without error),
  tokenize by whitespace into a synthetic argument list, run Request Model validation
  and, if valid, the full single-request pipeline."\<close>

definition whitespaceTokens :: "string \<Rightarrow> string list" where
  "whitespaceTokens s = tokensBy isspace s"

definition spec_processLine :: "string \<Rightarrow> world \<Rightarrow> fault + world" where
  "spec_processLine line st =
     (if line = [] then Inr st
      else (case parseArguments (''MADCounter'' # whitespaceTokens line) st of
              (st', None) \<Rightarrow> Inr st'
            | (st', Some r) \<Rightarrow>
                (case analyzeFile r st' of
                   Inl f \<Rightarrow> Inl f
                 | Inr (st'', analyzeResult) \<Rightarrow> Inr st'')))"

text \<open>A collection of 1001 entries of one length: the words 1000, 1001, ..., 2000, as
  \<open>insertWord\<close> stores them when a file lists them in this order.\<close>

definition thousandAndOne :: "WORD list" where
  "thousandAndOne = map (\<lambda>i. allocNode (digits (1000 + i)) (int i)) [0..<1001]"


text \<open>A list without its repetitions: of each element the first occurrence stays.\<close>

fun firstOccurrences :: "'a list \<Rightarrow> 'a list" where
  "firstOccurrences [] = []"
| "firstOccurrences (x # xs) = x # filter (\<lambda>y. y \<noteq> x) (firstOccurrences xs)"

text \<open>The five request fields and the order list say the same, and the order list names
  no kind twice.\<close>

definition agrees :: "arguments \<Rightarrow> bool" where
  "agrees a =
     (distinct (flagOrder a) \<and>
      requestCharAnalysis a = (FLAG_C \<in> set (flagOrder a)) \<and>
      requestWordAnalysis a = (FLAG_W \<in> set (flagOrder a)) \<and>
      requestLineAnalysis a = (FLAG_L \<in> set (flagOrder a)) \<and>
      requestLongestWord a = (FLAG_LW \<in> set (flagOrder a)) \<and>
      requestLongestLine a = (FLAG_LL \<in> set (flagOrder a)))"







text \<open>A file of \<open>2^31\<close> bytes: \<open>2^30\<close> times the letter a, then \<open>2^30\<close> times the
  letter b.\<close>

definition twoGiB :: string where
  "twoGiB = replicate (2 ^ 30) (CHR ''a'') @ replicate (2 ^ 30) (CHR ''b'')"

text \<open>A world for the examples: the files listed, every path writable, nothing printed
  yet.\<close>

definition world_with :: "(string \<times> string) list \<Rightarrow> world" where
  "world_with fs = \<lparr>files = map_of fs, writable = (\<lambda>path. True), stdout = []\<rparr>"

section \<open>The token collection stays ordered\<close>

lemma strcmp_less: "(strcmp a b < 0) = (a < b)"
  by (induction a b rule: strcmp.induct) (auto simp: less_char_def[symmetric])

lemma strcmp_eq: "(strcmp a b = 0) = (a = b)"
  by (induction a b rule: strcmp.induct) auto

lemma strcmp_greater: "(strcmp a b > 0) = (b < a)"
  by (induction a b rule: strcmp.induct) (auto simp: less_char_def[symmetric])

lemma findDuplicate_None: "(findDuplicate c w = None) = (w \<notin> set (map contents c))"
  by (induction c) (auto simp: strcmp_eq)

lemma findDuplicate_contents:
  "findDuplicate c w = Some c' \<Longrightarrow> map contents c' = map contents c"
  by (induction c arbitrary: c') (auto split: if_splits)

lemma set_spliceNode: "set (spliceNode c n) = insert n (set c)"
  by (induction c n rule: spliceNode.induct) auto

lemma sorted_spliceNode:
  "sorted_wrt (<) (map contents c) \<Longrightarrow> contents n \<notin> set (map contents c) \<Longrightarrow>
   sorted_wrt (<) (map contents (spliceNode c n))"
proof (induction c n rule: spliceNode.induct)
  case (1 n)
  then show ?case by simp
next
  case (2 current rest n)
  then show ?case
    by (auto simp: strcmp_less strcmp_greater set_spliceNode)
qed

lemma strictly_sorted_distinct: "sorted_wrt (<) (xs :: string list) \<Longrightarrow> distinct xs"
  by (induction xs) auto

lemma insertLine_eq: "insertLine = insertWord"
  by (intro ext) (simp add: insertLine_def insertWord_def)

lemma ordered_insertWord: "ordered c \<Longrightarrow> ordered (insertWord c w p)"
  unfolding ordered_def insertWord_def
  by (auto simp: findDuplicate_contents findDuplicate_None allocNode_def sorted_spliceNode
      intro: strictly_sorted_distinct split: option.splits)

lemma reachable_ordered: "reachable c \<Longrightarrow> ordered c"
  by (induction rule: reachable.induct)
     (simp_all add: ordered_def [of "[]"] ordered_insertWord insertLine_eq)

text \<open>
  C1. Every collection built by inserts (\<open>insertWord\<close> or \<open>insertLine\<close>) from the empty
  one has its texts in strictly ascending byte-wise lexicographic order, with no text
  twice; and one insert into a collection in that order gives a collection in that order.
\<close>

theorem collection_ordered:
  "(reachable c \<longrightarrow> ordered c) \<and>
   (ordered c \<longrightarrow> ordered (insertWord c w p) \<and> ordered (insertLine c l q))"
  by (auto simp: reachable_ordered ordered_insertWord insertLine_eq)

theorem collection_ordered_witness:
  "reachable (insertWord [] ''b'' 0) \<and>
   ordered (insertWord [] ''b'' 0) \<and>
   ordered (insertWord (insertWord [] ''b'' 0) ''a'' 1) \<and>
   ordered (insertLine (insertWord [] ''b'' 0) ''ab'' 1) \<and>
   map contents (insertWord (insertWord [] ''b'' 0) ''a'' 1) = [''a'', ''b'']"
proof -
  have r: "reachable (insertWord [] ''b'' 0)"
    by (rule reachable_insertWord) (rule reachable_empty)
  have e: "map contents (insertWord (insertWord [] ''b'' 0) ''a'' 1) = [''a'', ''b'']"
    by (simp add: insertWord_def allocNode_def)
  from r e collection_ordered [of "insertWord [] ''b'' 0" "''a''" 1 "''ab''" 1]
  show ?thesis by simp
qed

section \<open>A token seen again\<close>

lemma findDuplicate_update:
  "w \<in> set (map contents c) \<Longrightarrow>
   \<exists>i < length c. contents (c ! i) = w \<and> (\<forall>j < i. contents (c ! j) \<noteq> w) \<and>
     findDuplicate c w = Some (c[i := (c ! i)\<lparr>frequency := frequency (c ! i) + 1\<rparr>])"
proof (induction c)
  case Nil
  then show ?case by simp
next
  case (Cons a c)
  show ?case
  proof (cases "contents a = w")
    case True
    then have "contents ((a # c) ! 0) = w \<and> (\<forall>j < 0. contents ((a # c) ! j) \<noteq> w) \<and>
       findDuplicate (a # c) w =
         Some ((a # c)[0 := ((a # c) ! 0)\<lparr>frequency := frequency ((a # c) ! 0) + 1\<rparr>])"
      by (simp add: strcmp_eq)
    then show ?thesis by blast
  next
    case False
    with Cons obtain i where i: "i < length c" "contents (c ! i) = w"
      "\<forall>j < i. contents (c ! j) \<noteq> w"
      "findDuplicate c w = Some (c[i := (c ! i)\<lparr>frequency := frequency (c ! i) + 1\<rparr>])"
      by auto
    have "\<forall>j < Suc i. contents ((a # c) ! j) \<noteq> w"
      using False i(3) by (auto simp: nth_Cons split: nat.splits)
    with i False have "Suc i < length (a # c) \<and> contents ((a # c) ! Suc i) = w \<and>
       (\<forall>j < Suc i. contents ((a # c) ! j) \<noteq> w) \<and>
       findDuplicate (a # c) w =
         Some ((a # c)[Suc i := ((a # c) ! Suc i)\<lparr>frequency := frequency ((a # c) ! Suc i) + 1\<rparr>])"
      by (simp add: strcmp_eq)
    then show ?thesis by blast
  qed
qed

text \<open>
  C4. When the text of a token occurs in a collection, inserting the token
  (\<open>insertWord\<close> or \<open>insertLine\<close>) returns the collection with one entry replaced: the
  first entry with that text (the only one in an ordered collection), with one added to
  its frequency. Its text, length and first-appearance index, every other entry, and
  the number and the sequence of the entries (the links) are as they were.
\<close>

theorem insert_existing:
  "w \<in> set (map contents c) \<Longrightarrow>
   \<exists>i < length c. contents (c ! i) = w \<and> (\<forall>j < i. contents (c ! j) \<noteq> w) \<and>
     insertWord c w p = c[i := (c ! i)\<lparr>frequency := frequency (c ! i) + 1\<rparr>] \<and>
     insertLine c w p = c[i := (c ! i)\<lparr>frequency := frequency (c ! i) + 1\<rparr>]"
proof -
  assume "w \<in> set (map contents c)"
  from findDuplicate_update [OF this] obtain i where
    "i < length c" "contents (c ! i) = w" "\<forall>j < i. contents (c ! j) \<noteq> w"
    "findDuplicate c w = Some (c[i := (c ! i)\<lparr>frequency := frequency (c ! i) + 1\<rparr>])"
    by blast
  then show ?thesis
    by (auto simp: insertWord_def insertLine_def)
qed

theorem insert_existing_witness:
  "''b'' \<in> set (map contents [allocNode ''a'' 0, allocNode ''b'' 1]) \<and>
   insertWord [allocNode ''a'' 0, allocNode ''b'' 1] ''b'' 7 =
     [allocNode ''a'' 0, (allocNode ''b'' 1)\<lparr>frequency := 2\<rparr>] \<and>
   insertLine [allocNode ''a'' 0, allocNode ''b'' 1] ''b'' 7 =
     [allocNode ''a'' 0, (allocNode ''b'' 1)\<lparr>frequency := 2\<rparr>]"
proof -
  let ?c = "[allocNode ''a'' 0, allocNode ''b'' 1]"
  have m: "''b'' \<in> set (map contents ?c)"
    by (simp add: allocNode_def)
  from insert_existing [OF m, of 7] obtain i where
    i: "i < length ?c" "contents (?c ! i) = ''b''"
    and eq: "insertWord ?c ''b'' 7 = ?c[i := (?c ! i)\<lparr>frequency := frequency (?c ! i) + 1\<rparr>]"
      "insertLine ?c ''b'' 7 = ?c[i := (?c ! i)\<lparr>frequency := frequency (?c ! i) + 1\<rparr>]"
    by blast
  from i have "i = 1"
    by (cases i) (auto simp: allocNode_def)
  with eq m show ?thesis
    by (simp add: allocNode_def)
qed

section \<open>Valid arguments\<close>

text \<open>When the loop over the arguments succeeds it has printed nothing, and it cannot have
  stored an input file from fewer than two arguments.\<close>

lemma parseLoop_cases:
  "snd (parseLoop args a st) = None \<or>
   (fst (parseLoop args a st) = st \<and>
    (inputFile a = None \<longrightarrow> inputFile (the (snd (parseLoop args a st))) \<noteq> None \<longrightarrow>
       2 \<le> length args))"
proof (induction args a st rule: parseLoop.induct)
  case (1 a st)
  show ?case by simp
next
  case (2 arg rest a st)
  show ?case
  proof (cases "startsWithDash arg")
    case False
    then show ?thesis by simp
  next
    case True
    note d = True
    consider "arg = ''-f''" | "arg = ''-o''" | "arg = ''-c''" | "arg = ''-w''" | "arg = ''-l''"
      | "arg = ''-Lw''" | "arg = ''-Ll''"
      | "arg \<notin> {''-f'', ''-o'', ''-c'', ''-w'', ''-l'', ''-Lw'', ''-Ll''}"
      by auto
    then show ?thesis
    proof cases
      case 1
      show ?thesis
      proof (cases rest)
        case Nil
        with 1 d show ?thesis by simp
      next
        case (Cons nextArg rest')
        show ?thesis
        proof (cases "startsWithDash nextArg")
          case True
          with 1 d Cons show ?thesis by simp
        next
          case False
          from "2.IH"(1) [OF d 1 Cons False] 1 d Cons False show ?thesis by auto
        qed
      qed
    next
      case 2
      then have nf: "arg \<noteq> ''-f''" by simp
      show ?thesis
      proof (cases rest)
        case Nil
        with 2 d show ?thesis by simp
      next
        case (Cons nextArg rest')
        show ?thesis
        proof (cases "startsWithDash nextArg")
          case True
          with 2 d Cons show ?thesis by simp
        next
          case False
          from "2.IH"(2) [OF d nf 2 Cons False] 2 d Cons False show ?thesis by auto
        qed
      qed
    next
      case 3
      then have n: "arg \<noteq> ''-f''" "arg \<noteq> ''-o''" by simp_all
      from "2.IH"(3) [OF d n 3] 3 d show ?thesis by auto
    next
      case 4
      then have n: "arg \<noteq> ''-f''" "arg \<noteq> ''-o''" "arg \<noteq> ''-c''" by simp_all
      from "2.IH"(4) [OF d n 4] 4 d show ?thesis by auto
    next
      case 5
      then have n: "arg \<noteq> ''-f''" "arg \<noteq> ''-o''" "arg \<noteq> ''-c''" "arg \<noteq> ''-w''" by simp_all
      from "2.IH"(5) [OF d n 5] 5 d show ?thesis by auto
    next
      case 6
      then have n: "arg \<noteq> ''-f''" "arg \<noteq> ''-o''" "arg \<noteq> ''-c''" "arg \<noteq> ''-w''" "arg \<noteq> ''-l''"
        by simp_all
      from "2.IH"(6) [OF d n 6] 6 d show ?thesis by auto
    next
      case 7
      then have n: "arg \<noteq> ''-f''" "arg \<noteq> ''-o''" "arg \<noteq> ''-c''" "arg \<noteq> ''-w''" "arg \<noteq> ''-l''"
        "arg \<noteq> ''-Lw''" by simp_all
      from "2.IH"(7) [OF d n 7] 7 d show ?thesis by auto
    next
      case 8
      with d show ?thesis by simp
    qed
  qed
qed

lemma parseLoop_B: "parseLoop (''-B'' # rest) a st = (printInvalidFlagError st, None)"
  by (simp add: startsWithDash_def)

lemma parseArguments_Some:
  assumes "parseArguments argv st = (st', Some r)"
  shows "st' = st" and "3 \<le> length argv" and "argv ! 1 \<noteq> ''-B''" and "inputFile r \<noteq> None"
proof -
  obtain st1 r1 where q: "parseLoop (drop 1 argv) noArguments st = (st1, r1)"
    by (cases "parseLoop (drop 1 argv) noArguments st")
  with assms have r1: "r1 = Some r" and s1: "st1 = st'" and i: "inputFile r \<noteq> None"
    by (auto simp: parseArguments_def split: option.splits if_splits)
  from q r1 s1 have p: "parseLoop (drop 1 argv) noArguments st = (st', Some r)" by simp
  from parseLoop_cases [of "drop 1 argv" noArguments st] p i
  have w: "st' = st" and l: "2 \<le> length (drop 1 argv)"
    by (simp_all add: noArguments_def)
  from w show "st' = st" .
  from i show "inputFile r \<noteq> None" .
  from l show "3 \<le> length argv" by simp
  show "argv ! 1 \<noteq> ''-B''"
  proof
    assume b: "argv ! 1 = ''-B''"
    from l obtain x rest where d: "drop 1 argv = x # rest"
      by (cases "drop 1 argv") auto
    from l have "hd (drop 1 argv) = argv ! 1"
      by (intro hd_drop_conv_nth) simp
    with d b have "x = ''-B''" by simp
    with d p have "parseLoop (''-B'' # rest) noArguments st = (st', Some r)" by simp
    then have "(printInvalidFlagError st, None) = (st', Some r)"
      by (simp only: parseLoop_B)
    then show False by simp
  qed
qed

section \<open>An empty input file\<close>

text \<open>
  C7. A single-run request with valid arguments whose input file has no bytes: whatever
  analysis flags and whatever output file it names, \<open>main\<close> prints the message
  "ERROR: Input File Empty" on the standard output and nothing else, leaves every file
  as it was, and exits with code 1.
\<close>

theorem empty_input_error:
  "parseArguments argv st = (st', Some r) \<Longrightarrow> inputFile r = Some path \<Longrightarrow>
   files st path = Some [] \<Longrightarrow>
   main argv st = Inr (st\<lparr>stdout := stdout st @ ''ERROR: Input File Empty'' @ [NL]\<rparr>, 1)"
proof -
  assume p: "parseArguments argv st = (st', Some r)" and i: "inputFile r = Some path"
    and e: "files st path = Some []"
  note f = parseArguments_Some [OF p]
  from i e have a: "analyzeFile r st = Inr (printInputFileEmptyError st, 0)"
    by (simp add: analyzeFile_def)
  from f(2) have l: "\<not> length argv < 3" by simp
  from p f(1) have p': "parseArguments argv st = (st, Some r)" by simp
  show ?thesis
    unfolding main_def
    by (simp only: l f(3) p' a if_False prod.case option.case sum.case)
       (simp add: printInputFileEmptyError_def printf_def)
qed

theorem empty_input_error_witness:
  "main [''MADCounter'', ''-f'', ''empty.txt'', ''-o'', ''out.txt'', ''-c'', ''-Lw'']
     (world_with [(''empty.txt'', []), (''out.txt'', ''old'')]) =
   Inr ((world_with [(''empty.txt'', []), (''out.txt'', ''old'')])
         \<lparr>stdout := ''ERROR: Input File Empty'' @ [NL]\<rparr>, 1)"
proof -
  let ?w = "world_with [(''empty.txt'', []), (''out.txt'', ''old'')]"
  let ?r = "\<lparr>inputFile = Some ''empty.txt'', outputFile = Some ''out.txt'',
     requestCharAnalysis = True, requestWordAnalysis = False, requestLineAnalysis = False,
     requestLongestWord = True, requestLongestLine = False, flagOrder = [FLAG_C, FLAG_LW]\<rparr>"
  have p: "parseArguments [''MADCounter'', ''-f'', ''empty.txt'', ''-o'', ''out.txt'', ''-c'', ''-Lw''] ?w
     = (?w, Some ?r)"
    by (simp add: parseArguments_def startsWithDash_def noArguments_def)
  have i: "inputFile ?r = Some ''empty.txt''" by simp
  have e: "files ?w ''empty.txt'' = Some []" by (simp add: world_with_def)
  have s: "stdout ?w = []" by (simp add: world_with_def)
  from empty_input_error [OF p i e] show ?thesis by (simp only: s append_Nil)
qed

section \<open>The output file on the error paths of the input\<close>

text \<open>
  C10. When the input file cannot be opened or is empty, \<open>analyzeFile\<close> prints its
  message and returns 0 with every file as it was: the file named by \<^verbatim>\<open>-o\<close> is neither
  emptied nor written. Whenever a run of \<open>analyzeFile\<close> has changed a file, the input
  had been opened and was not empty, and the output file was then opened with success.
\<close>

theorem output_untouched_on_input_error:
  "inputFile r = Some path \<Longrightarrow>
   (files st path = None \<longrightarrow>
      analyzeFile r st =
        Inr (st\<lparr>stdout := stdout st @ ''ERROR: Can't open input file'' @ [NL]\<rparr>, 0)) \<and>
   (files st path = Some [] \<longrightarrow>
      analyzeFile r st =
        Inr (st\<lparr>stdout := stdout st @ ''ERROR: Input File Empty'' @ [NL]\<rparr>, 0)) \<and>
   (\<forall>st' res. analyzeFile r st = Inr (st', res) \<longrightarrow> files st' \<noteq> files st \<longrightarrow>
      (\<exists>content out. files st path = Some content \<and> content \<noteq> [] \<and>
         outputFile r = Some out \<and> writable st out \<and> res = 1))"
proof (intro conjI impI allI)
  assume i: "inputFile r = Some path"
  { assume "files st path = None"
    with i show "analyzeFile r st =
        Inr (st\<lparr>stdout := stdout st @ ''ERROR: Can't open input file'' @ [NL]\<rparr>, 0)"
      by (simp add: analyzeFile_def printInputFileError_def printf_def) }
  { assume "files st path = Some []"
    with i show "analyzeFile r st =
        Inr (st\<lparr>stdout := stdout st @ ''ERROR: Input File Empty'' @ [NL]\<rparr>, 0)"
      by (simp add: analyzeFile_def printInputFileEmptyError_def printf_def) }
  { fix st' res
    assume a: "analyzeFile r st = Inr (st', res)" and d: "files st' \<noteq> files st"
    show "\<exists>content out. files st path = Some content \<and> content \<noteq> [] \<and>
         outputFile r = Some out \<and> writable st out \<and> res = 1"
    proof (cases "files st path")
      case None
      with i a d show ?thesis
        by (simp add: analyzeFile_def printInputFileError_def printf_def) auto
    next
      case (Some content)
      show ?thesis
      proof (cases "content = []")
        case True
        with Some i a d show ?thesis
          by (simp add: analyzeFile_def printInputFileEmptyError_def printf_def) auto
      next
        case False
        note ne = False
        show ?thesis
        proof (cases "outputFile r")
          case None
          with Some ne i a d show ?thesis
            by (cases "report r content") (auto simp: analyzeFile_def printf_def)
        next
          case (Some out)
          note o = Some
          show ?thesis
          proof (cases "writable st out")
            case False
            with o \<open>files st path = Some content\<close> ne i a d show ?thesis
              by (auto simp: analyzeFile_def printf_def)
          next
            case True
            with o \<open>files st path = Some content\<close> ne i a show ?thesis
              by (cases "report r content") (auto simp: analyzeFile_def)
          qed
        qed
      qed
    qed }
qed

theorem output_untouched_on_input_error_witness:
  "analyzeFile (noArguments\<lparr>inputFile := Some ''missing.txt'', outputFile := Some ''out.txt''\<rparr>)
     (world_with [(''empty.txt'', []), (''out.txt'', ''old'')]) =
   Inr ((world_with [(''empty.txt'', []), (''out.txt'', ''old'')])
         \<lparr>stdout := ''ERROR: Can't open input file'' @ [NL]\<rparr>, 0) \<and>
   analyzeFile (noArguments\<lparr>inputFile := Some ''empty.txt'', outputFile := Some ''out.txt''\<rparr>)
     (world_with [(''empty.txt'', []), (''out.txt'', ''old'')]) =
   Inr ((world_with [(''empty.txt'', []), (''out.txt'', ''old'')])
         \<lparr>stdout := ''ERROR: Input File Empty'' @ [NL]\<rparr>, 0) \<and>
   files (world_with [(''empty.txt'', []), (''out.txt'', ''old'')]) ''out.txt'' = Some ''old''"
proof -
  let ?w = "world_with [(''empty.txt'', []), (''out.txt'', ''old'')]"
  have m: "files ?w ''missing.txt'' = None" and e: "files ?w ''empty.txt'' = Some []"
    and o: "files ?w ''out.txt'' = Some ''old''" and s: "stdout ?w = []"
    by (simp_all add: world_with_def)
  have i1: "inputFile (noArguments\<lparr>inputFile := Some ''missing.txt'', outputFile := Some ''out.txt''\<rparr>)
     = Some ''missing.txt''" by simp
  have i2: "inputFile (noArguments\<lparr>inputFile := Some ''empty.txt'', outputFile := Some ''out.txt''\<rparr>)
     = Some ''empty.txt''" by simp
  from output_untouched_on_input_error [OF i1, of ?w] m
  have a: "analyzeFile (noArguments\<lparr>inputFile := Some ''missing.txt'', outputFile := Some ''out.txt''\<rparr>) ?w
     = Inr (?w\<lparr>stdout := stdout ?w @ ''ERROR: Can't open input file'' @ [NL]\<rparr>, 0)"
    by blast
  from output_untouched_on_input_error [OF i2, of ?w] e
  have b: "analyzeFile (noArguments\<lparr>inputFile := Some ''empty.txt'', outputFile := Some ''out.txt''\<rparr>) ?w
     = Inr (?w\<lparr>stdout := stdout ?w @ ''ERROR: Input File Empty'' @ [NL]\<rparr>, 0)"
    by blast
  from a b o show ?thesis by (simp only: s append_Nil simp_thms)
qed

section \<open>A word analysis\<close>

text \<open>A single run with valid arguments and no output file, on an input that is not empty,
  appends the report to the standard output and exits with code 0.\<close>

lemma main_single_stdout:
  assumes p: "parseArguments argv st = (st, Some r)"
    and i: "inputFile r = Some path" and o: "outputFile r = None"
    and f: "files st path = Some content" and ne: "content \<noteq> []"
    and t: "report r content = Inr text"
  shows "main argv st = Inr (st\<lparr>stdout := stdout st @ text\<rparr>, 0)"
proof -
  note q = parseArguments_Some [OF p]
  from q(2) have l: "\<not> length argv < 3" by simp
  from i o f ne t have a: "analyzeFile r st = Inr (printf text st, 1)"
    by (simp add: analyzeFile_def)
  show ?thesis
    unfolding main_def
    by (simp only: l q(3) p a if_False prod.case option.case sum.case)
       (simp add: printf_def)
qed

text \<open>
  C5. The input "hello world hello" followed by a newline, analysed with \<^verbatim>\<open>-w\<close>: the
  report gives 3 as the total number of words and 2 as the number of unique words, and
  lists "hello" with frequency 2 and initial position 0, then "world" with frequency 1
  and initial position 1; these two are the entries of the collection, in that order.
\<close>

theorem word_analysis_example:
  "main [''MADCounter'', ''-f'', ''in.txt'', ''-w'']
     (world_with [(''in.txt'', ''hello world hello'' @ [NL])]) =
   Inr ((world_with [(''in.txt'', ''hello world hello'' @ [NL])])
         \<lparr>stdout :=
            ''Total Number of Words: 3'' @ [NL] @
            ''Total Unique Words: 2'' @ [NL] @ [NL] @
            ''Word: hello, Freq: 2, Initial Position: 0'' @ [NL] @
            ''Word: world, Freq: 1, Initial Position: 1'' @ [NL]\<rparr>, 0) \<and>
   buildWordList (''hello world hello'' @ [NL]) =
   Inr ([\<lparr>contents = ''hello'', numChars = 5, frequency = 2, orderAppeared = 0\<rparr>,
         \<lparr>contents = ''world'', numChars = 5, frequency = 1, orderAppeared = 1\<rparr>], 3, 2)"
proof -
  let ?w = "world_with [(''in.txt'', ''hello world hello'' @ [NL])]"
  let ?r = "noArguments\<lparr>inputFile := Some ''in.txt'', flagOrder := [FLAG_W],
     requestWordAnalysis := True\<rparr>"
  have b: "buildWordList (''hello world hello'' @ [NL]) =
   Inr ([\<lparr>contents = ''hello'', numChars = 5, frequency = 2, orderAppeared = 0\<rparr>,
         \<lparr>contents = ''world'', numChars = 5, frequency = 1, orderAppeared = 1\<rparr>], 3, 2)"
    by code_simp
  have p: "parseArguments [''MADCounter'', ''-f'', ''in.txt'', ''-w''] ?w = (?w, Some ?r)"
    by (simp add: parseArguments_def startsWithDash_def noArguments_def)
  have t: "report ?r (''hello world hello'' @ [NL]) =
     Inr (''Total Number of Words: 3'' @ [NL] @
          ''Total Unique Words: 2'' @ [NL] @ [NL] @
          ''Word: hello, Freq: 2, Initial Position: 0'' @ [NL] @
          ''Word: world, Freq: 1, Initial Position: 1'' @ [NL])"
    by code_simp
  have f: "files ?w ''in.txt'' = Some (''hello world hello'' @ [NL])"
    and s: "stdout ?w = []"
    by (simp_all add: world_with_def)
  have m: "main [''MADCounter'', ''-f'', ''in.txt'', ''-w''] ?w =
     Inr (?w\<lparr>stdout := stdout ?w @ (''Total Number of Words: 3'' @ [NL] @
          ''Total Unique Words: 2'' @ [NL] @ [NL] @
          ''Word: hello, Freq: 2, Initial Position: 0'' @ [NL] @
          ''Word: world, Freq: 1, Initial Position: 1'' @ [NL])\<rparr>, 0)"
    by (rule main_single_stdout [OF p _ _ f _ t]) (simp_all add: noArguments_def)
  from m b show ?thesis by (simp only: s append_Nil simp_thms)
qed

section \<open>The character section\<close>

lemma printCharacterAnalysis_listed:
  "printCharacterAnalysis f p n u =
     ''Total Number of Chars = '' @ show_int n @ [NL] @
     ''Total Unique Chars = '' @ show_int u @ [NL, NL] @
     concat (map (charLine f p) (listedChars f))"
proof -
  have "concat (map (\<lambda>i. if P i then g i else []) xs) = concat (map g (filter P xs))"
    for P :: "nat \<Rightarrow> bool" and g :: "nat \<Rightarrow> string" and xs
    by (induction xs) auto
  then show ?thesis
    by (simp add: printCharacterAnalysis_def listedChars_def)
qed

lemma count_pos_update:
  "c < length f \<Longrightarrow>
   int (length (filter P (f[c := v]))) =
   int (length (filter P f)) + (if P v then 1 else 0) - (if P (f ! c) then 1 else 0)"
proof (induction f arbitrary: c)
  case Nil
  then show ?case by simp
next
  case (Cons a f)
  show ?case
  proof (cases c)
    case 0
    then show ?thesis by simp
  next
    case (Suc n)
    with Cons.prems have "n < length f" by simp
    from Cons.IH [OF this] Suc show ?thesis by (auto split: if_splits)
  qed
qed

lemma sum_list_bump: "c < length (f :: int list) \<Longrightarrow> sum_list (f[c := f ! c + 1]) = sum_list f + 1"
proof (induction f arbitrary: c)
  case Nil
  then show ?case by simp
next
  case (Cons a f)
  show ?case
  proof (cases c)
    case 0
    then show ?thesis by simp
  next
    case (Suc n)
    with Cons.prems have "n < length f" by simp
    from Cons.IH [OF this] Suc show ?thesis by simp
  qed
qed

lemma int32_id: "- 2147483648 \<le> n \<Longrightarrow> n < 2147483648 \<Longrightarrow> int32 n = n"
  by (simp add: int32_def)

lemma int32_succ: "int32 (int32 q + 1) = int32 (q + 1)"
proof -
  have "int32 q + 1 + 2147483648 = (q + 2147483648) mod 4294967296 + 1"
    by (simp add: int32_def)
  then have "int32 (int32 q + 1) =
     ((q + 2147483648) mod 4294967296 + 1) mod 4294967296 - 2147483648"
    by (simp only: int32_def [of "int32 q + 1"])
  also have "((q + 2147483648) mod 4294967296 + 1) mod 4294967296 =
     (q + 2147483648 + 1) mod (4294967296 :: int)"
    by (rule mod_add_left_eq)
  also have "q + 2147483648 + 1 = q + 1 + (2147483648 :: int)" by simp
  finally show ?thesis by (simp only: int32_def [of "q + 1"])
qed

lemma nth_le_sum_list:
  "\<forall>x \<in> set (f :: int list). 0 \<le> x \<Longrightarrow> c < length f \<Longrightarrow> f ! c \<le> sum_list f"
proof (induction f arbitrary: c)
  case Nil
  then show ?case by simp
next
  case (Cons a f)
  then have s: "0 \<le> sum_list f" by (simp add: sum_list_nonneg)
  show ?case
  proof (cases c)
    case 0
    with s show ?thesis by simp
  next
    case (Suc n)
    with Cons.prems have "f ! n \<le> sum_list f" by (intro Cons.IH) simp_all
    with Cons.prems Suc show ?thesis by simp
  qed
qed

lemma charLoop_invariant:
  "\<forall>b \<in> set bs. of_char b < (128::nat) \<Longrightarrow> length f = 128 \<Longrightarrow> \<forall>x \<in> set f. 0 \<le> x \<Longrightarrow>
   u = int (length (filter (\<lambda>x. 0 < x) f)) \<Longrightarrow>
   sum_list f + int (length bs) < 2147483648 \<Longrightarrow>
   \<exists>f' p' u'. charLoop bs f p u pos = Inr (f', p', u') \<and> length f' = 128 \<and>
     (\<forall>x \<in> set f'. 0 \<le> x) \<and> sum_list f' = sum_list f + int (length bs) \<and>
     u' = int (length (filter (\<lambda>x. 0 < x) f'))"
proof (induction bs arbitrary: f p u pos)
  case Nil
  then show ?case by simp
next
  case (Cons ch bs)
  let ?c = "of_char ch :: nat"
  let ?f = "f[?c := f ! ?c + 1]"
  from Cons.prems have c: "?c < 128" and rest: "\<forall>b \<in> set bs. of_char b < (128::nat)" by simp_all
  from c Cons.prems have cl: "?c < length f" by simp
  from cl Cons.prems have fc: "0 \<le> f ! ?c" by (simp add: all_set_conv_all_nth)
  from Cons.prems(3) cl have "f ! ?c \<le> sum_list f" by (rule nth_le_sum_list)
  with Cons.prems(5) fc have w: "int32 (f ! ?c + 1) = f ! ?c + 1"
    by (intro int32_id) simp_all
  have "length (filter (\<lambda>x. 0 < x) f) \<le> length f" by (rule length_filter_le)
  with Cons.prems(2,4) have "0 \<le> u" "u \<le> 128" by simp_all
  then have wu: "int32 (u + 1) = u + 1" by (intro int32_id) simp_all
  have len: "length ?f = 128" using Cons.prems by simp
  have nonneg: "\<forall>x \<in> set ?f. 0 \<le> x"
  proof
    fix x assume "x \<in> set ?f"
    then have "x \<in> insert (f ! ?c + 1) (set f)"
      using set_update_subset_insert by fastforce
    with fc Cons.prems show "0 \<le> x" by auto
  qed
  have cnt: "int (length (filter (\<lambda>x. 0 < x) ?f)) = u + (if f ! ?c = 0 then 1 else 0)"
    using count_pos_update [OF cl, of "\<lambda>x. 0 < x" "f ! ?c + 1"] fc Cons.prems(4) by auto
  have sum: "sum_list ?f = sum_list f + 1" using cl by (rule sum_list_bump)
  from sum Cons.prems(5) have bound: "sum_list ?f + int (length bs) < 2147483648" by simp
  show ?case
  proof (cases "f ! ?c = 0")
    case True
    from Cons.IH [OF rest len nonneg _ bound, of "u + 1" "p[?c := pos]" "int32 (pos + 1)"] cnt True
    obtain f' p' u' where
      "charLoop bs ?f (p[?c := pos]) (u + 1) (int32 (pos + 1)) = Inr (f', p', u')"
      "length f' = 128" "\<forall>x \<in> set f'. 0 \<le> x" "sum_list f' = sum_list ?f + int (length bs)"
      "u' = int (length (filter (\<lambda>x. 0 < x) f'))"
      by auto
    with True c sum w wu show ?thesis by (simp add: ASCII_RANGE_def Let_def)
  next
    case False
    from Cons.IH [OF rest len nonneg _ bound, of u p "int32 (pos + 1)"] cnt False
    obtain f' p' u' where "charLoop bs ?f p u (int32 (pos + 1)) = Inr (f', p', u')"
      "length f' = 128" "\<forall>x \<in> set f'. 0 \<le> x" "sum_list f' = sum_list ?f + int (length bs)"
      "u' = int (length (filter (\<lambda>x. 0 < x) f'))"
      by auto
    with False c sum w show ?thesis by (simp add: ASCII_RANGE_def Let_def)
  qed
qed

lemma listed_as_filter:
  "length f = 128 \<Longrightarrow> map (\<lambda>i. f ! i) (listedChars f) = filter (\<lambda>x. 0 < x) f"
proof -
  assume l: "length f = 128"
  have "map (\<lambda>i. f ! i) (filter (\<lambda>i. 0 < f ! i) [0..<length f]) =
        filter (\<lambda>x. 0 < x) (map (\<lambda>i. f ! i) [0..<length f])"
    by (simp add: filter_map comp_def)
  also have "map (\<lambda>i. f ! i) [0..<length f] = f" by (rule map_nth)
  finally show ?thesis using l by (simp add: listedChars_def ASCII_RANGE_def)
qed

lemma sum_list_filter_pos:
  "\<forall>x \<in> set (f :: int list). 0 \<le> x \<Longrightarrow> sum_list (filter (\<lambda>x. 0 < x) f) = sum_list f"
  by (induction f) auto

lemma analyzeCharacters_ok:
  assumes "\<forall>b \<in> set bs. of_char b < (128::nat)" and "int (length bs) < 2147483648"
  shows "\<exists>f p u. analyzeCharacters bs = Inr (f, p, u) \<and> length f = 128 \<and>
     (\<forall>x \<in> set f. 0 \<le> x) \<and> sum_list f = int (length bs) \<and>
     u = int (length (filter (\<lambda>x. 0 < x) f))"
proof -
  have z: "sum_list (replicate 128 (0::int)) = 0"
    by (simp add: sum_list_replicate)
  have "\<exists>f' p' u'. charLoop bs (replicate 128 0) (replicate 128 0) 0 0 = Inr (f', p', u') \<and>
     length f' = 128 \<and> (\<forall>x \<in> set f'. 0 \<le> x) \<and>
     sum_list f' = sum_list (replicate 128 0) + int (length bs) \<and>
     u' = int (length (filter (\<lambda>x. 0 < x) f'))"
    using assms(2) by (intro charLoop_invariant [OF assms(1)]) (simp_all add: z)
  then show ?thesis
    by (simp only: z analyzeCharacters_def ASCII_RANGE_def add_0)
qed

lemma printSection_chars:
  assumes r: "requestCharAnalysis r" and b: "buildPhase r bs = Inr a"
    and c: "analyzeCharacters bs = Inr (f, p, u)"
  shows "printSection a n FLAG_C = Inr (Some (printCharacterAnalysis f p (int32 n) u))"
proof -
  from r b c have "charData a = Some (f, p) \<and> uniqueCharCount a = u"
    by (auto simp: buildPhase_def split: sum.splits prod.splits if_splits)
  then show ?thesis by (simp add: printSection_def)
qed

subsection \<open>A file of \<open>2^31\<close> bytes\<close>

lemma charLoop_again:
  "of_char ch = c \<Longrightarrow> c < 128 \<Longrightarrow> length f = 128 \<Longrightarrow> 0 < f ! c \<Longrightarrow> f ! c + int n < 2147483648 \<Longrightarrow>
   charLoop (replicate n ch @ rest) f p u (int32 q) =
   charLoop rest (f[c := f ! c + int n]) p u (int32 (q + int n))"
proof (induction n arbitrary: f q)
  case 0
  then show ?case by simp
next
  case (Suc n)
  let ?f = "f[c := f ! c + 1]"
  from Suc.prems have w: "int32 (f ! c + 1) = f ! c + 1" by (intro int32_id) simp_all
  from Suc.prems have n: "?f ! c = f ! c + 1" by simp
  have "charLoop (replicate (Suc n) ch @ rest) f p u (int32 q) =
        charLoop (replicate n ch @ rest) ?f p u (int32 (q + 1))"
    using Suc.prems by (simp add: ASCII_RANGE_def Let_def w int32_succ)
  also have "\<dots> = charLoop rest (?f[c := ?f ! c + int n]) p u (int32 (q + 1 + int n))"
    using Suc.prems by (intro Suc.IH) simp_all
  also have "?f[c := ?f ! c + int n] = f[c := f ! c + int (Suc n)]"
    by (simp add: n add.assoc)
  also have "q + 1 + int n = q + int (Suc n)" by simp
  finally show ?case .
qed

lemma charLoop_first:
  assumes "of_char ch = c" "c < 128" "length f = 128" "f ! c = 0" "int (Suc n) < 2147483648"
  shows "charLoop (replicate (Suc n) ch @ rest) f p u (int32 q) =
         charLoop rest (f[c := int (Suc n)]) (p[c := int32 q]) (int32 (u + 1))
           (int32 (q + int (Suc n)))"
proof -
  let ?f = "f[c := 1]"
  from assms have n: "?f ! c = 1" by simp
  have "charLoop (replicate (Suc n) ch @ rest) f p u (int32 q) =
        charLoop (replicate n ch @ rest) ?f (p[c := int32 q]) (int32 (u + 1)) (int32 (q + 1))"
    using assms by (simp add: ASCII_RANGE_def Let_def int32_id int32_succ)
  also have "\<dots> = charLoop rest (?f[c := ?f ! c + int n]) (p[c := int32 q]) (int32 (u + 1))
       (int32 (q + 1 + int n))"
    using assms by (intro charLoop_again) simp_all
  also have "?f[c := ?f ! c + int n] = f[c := int (Suc n)]" by (simp add: n)
  also have "q + 1 + int n = q + int (Suc n)" by simp
  finally show ?thesis .
qed

lemma analyzeCharacters_twoRuns:
  assumes "0 < n" "int n < 2147483648" "0 < m" "int m < 2147483648"
  shows "analyzeCharacters (replicate n (CHR ''a'') @ replicate m (CHR ''b'')) =
         Inr ((replicate 128 0)[97 := int n, 98 := int m],
              (replicate 128 0)[97 := 0, 98 := int32 (int n)], 2)"
proof -
  obtain n' m' where n: "n = Suc n'" and m: "m = Suc m'"
    using assms(1,3) by (auto simp: gr0_conv_Suc)
  let ?f = "replicate 128 (0::int)"
  have z: "int32 0 = 0" by (simp add: int32_def)
  have "charLoop (replicate n (CHR ''a'') @ replicate m (CHR ''b'') @ []) ?f ?f 0 (int32 0) =
        charLoop (replicate m (CHR ''b'') @ []) (?f[97 := int n]) (?f[97 := int32 0])
          (int32 (0 + 1)) (int32 (0 + int n))"
    unfolding n using assms(2) by (intro charLoop_first) (simp_all add: n)
  also have "\<dots> = charLoop [] (?f[97 := int n, 98 := int m])
       (?f[97 := int32 0, 98 := int32 (0 + int n)]) (int32 (int32 (0 + 1) + 1))
       (int32 (0 + int n + int m))"
    unfolding m using assms(4) by (intro charLoop_first) (simp_all add: m)
  finally show ?thesis
    by (simp add: analyzeCharacters_def ASCII_RANGE_def z int32_id)
qed

text \<open>
  C6, as the code has it. For every input whose bytes are all in 0 to 127 and whose
  length is less than \<open>2^31\<close>, \<open>analyzeCharacters\<close> returns its tables, and the character
  section that \<open>analyzeFile\<close> prints from them (with the size of the file as the total)
  consists of the two header lines and one line for each listed index. The listed
  indices are strictly ascending, they are exactly the byte values whose count is
  positive, their counts add up to the total reported, which is the length of the input,
  and their number is the unique count reported.

  As the claim states it, for every input of such bytes, it fails on the \<open>2^31\<close> bytes
  of \<open>twoGiB\<close>: the size of the file does not fit the \<^verbatim>\<open>int\<close> it is converted to, and
  the total reported is \<open>-2147483648\<close>, where the two counts listed add up to
  \<open>2147483648\<close>.
\<close>

theorem character_section:
  assumes "\<forall>b \<in> set bs. of_char b < (128::nat)" and "length bs < 2147483648"
  shows "\<exists>f p u. analyzeCharacters bs = Inr (f, p, u) \<and>
     (\<forall>r a. requestCharAnalysis r \<longrightarrow> buildPhase r bs = Inr a \<longrightarrow>
        printSection a (int (length bs)) FLAG_C =
          Inr (Some (printCharacterAnalysis f p (int (length bs)) u))) \<and>
     printCharacterAnalysis f p (int (length bs)) u =
       ''Total Number of Chars = '' @ show_int (int (length bs)) @ [NL] @
       ''Total Unique Chars = '' @ show_int u @ [NL, NL] @
       concat (map (charLine f p) (listedChars f)) \<and>
     sorted_wrt (<) (listedChars f) \<and>
     (\<forall>i < 128. (i \<in> set (listedChars f)) = (0 < f ! i)) \<and>
     sum_list (map (\<lambda>i. f ! i) (listedChars f)) = int (length bs) \<and>
     int (length (listedChars f)) = u"
proof -
  from assms(2) have b: "int (length bs) < 2147483648" by simp
  then have w: "int32 (int (length bs)) = int (length bs)" by (intro int32_id) simp_all
  from analyzeCharacters_ok [OF assms(1) b] obtain f p u where
    a: "analyzeCharacters bs = Inr (f, p, u)" and l: "length f = 128"
    and nn: "\<forall>x \<in> set f. 0 \<le> x" and s: "sum_list f = int (length bs)"
    and u: "u = int (length (filter (\<lambda>x. 0 < x) f))"
    by blast
  have 1: "\<forall>r a. requestCharAnalysis r \<longrightarrow> buildPhase r bs = Inr a \<longrightarrow>
        printSection a (int (length bs)) FLAG_C =
          Inr (Some (printCharacterAnalysis f p (int (length bs)) u))"
    using a printSection_chars [where n = "int (length bs)" and bs = bs and f = f and p = p and u = u]
    by (simp only: w) blast
  have 2: "sorted_wrt (<) (listedChars f)"
    unfolding listedChars_def by (rule sorted_wrt_filter) (rule sorted_wrt_upt)
  have 3: "\<forall>i < 128. (i \<in> set (listedChars f)) = (0 < f ! i)"
    by (simp add: listedChars_def ASCII_RANGE_def)
  have 4: "sum_list (map (\<lambda>i. f ! i) (listedChars f)) = int (length bs)"
    using listed_as_filter [OF l] sum_list_filter_pos [OF nn] s by simp
  have "length (map (\<lambda>i. f ! i) (listedChars f)) = length (filter (\<lambda>x. 0 < x) f)"
    using listed_as_filter [OF l] by simp
  then have 5: "int (length (listedChars f)) = u" using u by simp
  from a 1 2 3 4 5 printCharacterAnalysis_listed [of f p "int (length bs)" u]
  show ?thesis by blast
qed

theorem character_section_witness:
  "\<exists>f p u. analyzeCharacters ''abca'' = Inr (f, p, u) \<and>
      map (\<lambda>i. (i, f ! i, p ! i)) (listedChars f) = [(97, 2, 0), (98, 1, 1), (99, 1, 2)] \<and>
      u = 3 \<and> int (length ''abca'') = 4"
proof -
  have h: "\<forall>b \<in> set ''abca''. of_char b < (128::nat)" by simp
  have l: "length ''abca'' < 2147483648" by simp
  from character_section [OF h l] obtain f p u where
    a: "analyzeCharacters ''abca'' = Inr (f, p, u)" by blast
  have e: "analyzeCharacters ''abca'' = Inr (replicate 97 0 @ [2, 1, 1] @ replicate 28 0,
      replicate 97 0 @ [0, 1, 2] @ replicate 28 0, 3)"
    by code_simp
  have m: "map (\<lambda>i. (i, (replicate 97 0 @ [2, 1, 1] @ replicate 28 (0::int)) ! i,
        (replicate 97 0 @ [0, 1, 2] @ replicate 28 (0::int)) ! i))
      (listedChars (replicate 97 0 @ [2, 1, 1] @ replicate 28 0)) =
      [(97, 2, 0), (98, 1, 1), (99, 1, 2)]"
    by code_simp
  from a e m show ?thesis by simp
qed

theorem character_section_counterexample:
  "int (length twoGiB) = 2147483648 \<and>
   set twoGiB = {CHR ''a'', CHR ''b''} \<and>
   analyzeCharacters twoGiB =
     Inr ((replicate 128 0)[97 := 1073741824, 98 := 1073741824],
          (replicate 128 0)[97 := 0, 98 := 1073741824], 2) \<and>
   sum_list (map (\<lambda>i. (replicate 128 (0::int))[97 := 1073741824, 98 := 1073741824] ! i)
     (listedChars ((replicate 128 0)[97 := 1073741824, 98 := 1073741824]))) = 2147483648 \<and>
   report (noArguments\<lparr>inputFile := Some ''big.txt'', flagOrder := [FLAG_C],
             requestCharAnalysis := True\<rparr>) twoGiB =
     Inr (''Total Number of Chars = -2147483648'' @ [NL] @
          ''Total Unique Chars = 2'' @ [NL, NL] @
          ''Ascii Value: 97, Char: a, Count: 1073741824, Initial Position: 0'' @ [NL] @
          ''Ascii Value: 98, Char: b, Count: 1073741824, Initial Position: 1073741824'' @ [NL])"
proof -
  let ?f = "(replicate 128 (0::int))[97 := 1073741824, 98 := 1073741824]"
  let ?p = "(replicate 128 (0::int))[97 := 0, 98 := 1073741824]"
  let ?r = "noArguments\<lparr>inputFile := Some ''big.txt'', flagOrder := [FLAG_C],
             requestCharAnalysis := True\<rparr>"
  have k: "int (2 ^ 30) = 1073741824" by simp
  have 1: "int (length twoGiB) = 2147483648"
    unfolding twoGiB_def by (simp only: length_append length_replicate) simp
  have "(2::nat) ^ 30 \<noteq> 0" by simp
  then have 2: "set twoGiB = {CHR ''a'', CHR ''b''}"
    unfolding twoGiB_def
    by (simp only: set_append set_replicate_conv_if if_False Un_insert_left Un_empty_left)
  have "analyzeCharacters twoGiB =
     Inr ((replicate 128 0)[97 := int (2 ^ 30), 98 := int (2 ^ 30)],
          (replicate 128 0)[97 := 0, 98 := int32 (int (2 ^ 30))], 2)"
    unfolding twoGiB_def by (rule analyzeCharacters_twoRuns) simp_all
  moreover have "int32 1073741824 = 1073741824" by (simp add: int32_def)
  ultimately have 3: "analyzeCharacters twoGiB = Inr (?f, ?p, 2)"
    by (simp only: k)
  have n: "int32 2147483648 = - 2147483648" by (simp add: int32_def)
  have b: "buildPhase ?r twoGiB =
     Inr \<lparr>charData = Some (?f, ?p), uniqueCharCount = 2, wordHead = [], totalWords = 0,
          uniqueWords = 0, lineHead = [], totalLines = 0, uniqueLines = 0\<rparr>"
    by (simp add: buildPhase_def noArguments_def 3)
  have lc: "listedChars ?f = [97, 98]" by code_simp
  have 4: "sum_list (map (\<lambda>i. ?f ! i) (listedChars ?f)) = 2147483648"
    by (simp add: lc)
  have s: "printCharacterAnalysis ?f ?p (- 2147483648) 2 =
     ''Total Number of Chars = -2147483648'' @ [NL] @
     ''Total Unique Chars = 2'' @ [NL, NL] @
     ''Ascii Value: 97, Char: a, Count: 1073741824, Initial Position: 0'' @ [NL] @
     ''Ascii Value: 98, Char: b, Count: 1073741824, Initial Position: 1073741824'' @ [NL]"
    by (simp add: printCharacterAnalysis_listed lc charLine_def show_int_def digits.simps)
       code_simp
  have 5: "report ?r twoGiB =
     Inr (printCharacterAnalysis ?f ?p (- 2147483648) 2)"
    by (simp add: report_def b printSection_def 1 n)
  from 1 2 3 4 5 show ?thesis by (simp only: s simp_thms)
qed

section \<open>Batch mode\<close>

subsection \<open>The tokens of a line\<close>

lemma fieldsBy_ne [simp]: "fieldsBy d s \<noteq> []"
  by (induction s) (auto split: list.splits)

lemma tokensBy_Nil [simp]: "tokensBy d [] = []"
  by (simp add: tokensBy_def)

lemma tokensBy_delim: "d c \<Longrightarrow> tokensBy d (c # cs) = tokensBy d cs"
  by (simp add: tokensBy_def)

lemma tokensBy_dropWhile: "tokensBy d (dropWhile d s) = tokensBy d s"
  by (induction s) (simp_all add: tokensBy_delim)

lemma fieldsBy_run:
  "fieldsBy d s = (takeWhile (\<lambda>c. \<not> d c) s) # tl (fieldsBy d (dropWhile (\<lambda>c. \<not> d c) s))"
proof (induction s)
  case Nil
  show ?case by simp
next
  case (Cons c s)
  show ?case
  proof (cases "d c")
    case True
    then show ?thesis by simp
  next
    case False
    with Cons show ?thesis by (simp split: list.splits)
  qed
qed

lemma fieldsBy_tl:
  "x = [] \<or> d (hd x) \<Longrightarrow>
   filter (\<lambda>t. t \<noteq> []) (tl (fieldsBy d x)) = tokensBy d (drop 1 x)"
  by (cases x) (auto simp: tokensBy_def)

lemma tokensBy_run:
  assumes "s \<noteq> []" and "\<not> d (hd s)"
  shows "tokensBy d s =
    takeWhile (\<lambda>c. \<not> d c) s # tokensBy d (drop 1 (dropWhile (\<lambda>c. \<not> d c) s))"
proof -
  define x where "x = dropWhile (\<lambda>c. \<not> d c) s"
  have hx: "x = [] \<or> d (hd x)"
    using hd_dropWhile [of "\<lambda>c. \<not> d c" s] by (auto simp: x_def)
  from assms have ne: "takeWhile (\<lambda>c. \<not> d c) s \<noteq> []" by (cases s) auto
  have "fieldsBy d s = takeWhile (\<lambda>c. \<not> d c) s # tl (fieldsBy d x)"
    unfolding x_def by (rule fieldsBy_run)
  then have "tokensBy d s =
     filter (\<lambda>t. t \<noteq> []) (takeWhile (\<lambda>c. \<not> d c) s # tl (fieldsBy d x))"
    by (simp only: tokensBy_def)
  also have "\<dots> = takeWhile (\<lambda>c. \<not> d c) s # filter (\<lambda>t. t \<noteq> []) (tl (fieldsBy d x))"
    using ne by simp
  also have "filter (\<lambda>t. t \<noteq> []) (tl (fieldsBy d x)) = tokensBy d (drop 1 x)"
    using hx by (rule fieldsBy_tl)
  finally show ?thesis by (simp only: x_def)
qed

lemma strtok_None: "strtok s = None \<Longrightarrow> spaceTokens s = []"
proof -
  assume "strtok s = None"
  then have e: "dropWhile (\<lambda>c. c = CHR 0x20) s = []"
    by (simp add: strtok_def Let_def split: if_splits)
  have "spaceTokens s = tokensBy (\<lambda>c. c = CHR 0x20) (dropWhile (\<lambda>c. c = CHR 0x20) s)"
    by (simp only: spaceTokens_def tokensBy_dropWhile)
  also have "\<dots> = []" by (simp only: e tokensBy_Nil)
  finally show ?thesis .
qed

lemma strtok_Some: "strtok s = Some (token, rest) \<Longrightarrow> spaceTokens s = token # spaceTokens rest"
proof -
  assume a: "strtok s = Some (token, rest)"
  define t where "t = dropWhile (\<lambda>c. c = CHR 0x20) s"
  from a have ne: "t \<noteq> []" and tk: "token = takeWhile (\<lambda>c. c \<noteq> CHR 0x20) t"
    and r: "rest = drop 1 (dropWhile (\<lambda>c. c \<noteq> CHR 0x20) t)"
    by (auto simp: strtok_def t_def Let_def split: if_splits)
  from ne have h: "hd t \<noteq> CHR 0x20"
    using hd_dropWhile [of "\<lambda>c. c = CHR 0x20" s] by (simp add: t_def)
  have "spaceTokens s = spaceTokens t"
    by (simp add: spaceTokens_def t_def tokensBy_dropWhile)
  also have "\<dots> = token # spaceTokens rest"
    using tokensBy_run [of t "\<lambda>c. c = CHR 0x20"] ne h tk r by (simp add: spaceTokens_def)
  finally show ?thesis .
qed

lemma tokenLoop_take: "tokenLoop s k = take (MAX_TOKENS - k) (spaceTokens s)"
proof (induction s k rule: tokenLoop.induct)
  case (1 s k)
  show ?case
  proof (cases "strtok s")
    case None
    then show ?thesis by (subst tokenLoop.simps) (simp add: strtok_None)
  next
    case (Some tr)
    obtain token rest where tr: "tr = (token, rest)" by (cases tr)
    with Some have s: "strtok s = Some (token, rest)" by simp
    show ?thesis
    proof (cases "k < MAX_TOKENS")
      case True
      then have "MAX_TOKENS - k = Suc (MAX_TOKENS - (k + 1))" by simp
      with "1.IH" [OF s refl True] s True show ?thesis
        by (subst tokenLoop.simps) (simp add: strtok_Some)
    next
      case False
      with s show ?thesis by (subst tokenLoop.simps) simp
    qed
  qed
qed



subsection \<open>Lines of the control file\<close>




lemma processLine_tokens:
  "stripNewline buffer = Inr line \<Longrightarrow>
   processLine buffer st =
     (let tokens = take 100 (spaceTokens line)
      in if length tokens < 2 then Inr st
         else (case parseArguments (''MADCounter'' # tokens) st of
                 (st', None) \<Rightarrow> Inr st'
               | (st', Some r) \<Rightarrow>
                   (case analyzeFile r st' of
                      Inl f \<Rightarrow> Inl f
                    | Inr (st'', analyzeResult) \<Rightarrow> Inr st'')))"
proof -
  assume s: "stripNewline buffer = Inr line"
  have t: "tokenLoop line 0 = take 100 (spaceTokens line)"
    by (simp add: tokenLoop_take MAX_TOKENS_def)
  have e: "line = [] \<Longrightarrow> take 100 (spaceTokens line) = []"
    by (simp add: spaceTokens_def)
  have l: "(3 \<le> length (''MADCounter'' # take 100 (spaceTokens line))) =
     (\<not> length (take 100 (spaceTokens line)) < 2)"
    by auto
  show ?thesis
    unfolding processLine_def
    by (simp only: s sum.case t Let_def l) (auto simp: spaceTokens_def)
qed

lemma processLine_skip:
  "stripNewline buffer = Inr line \<Longrightarrow> spaceTokens line = toks \<Longrightarrow> length toks < 2 \<Longrightarrow>
   processLine buffer st = Inr st"
  by (simp add: processLine_tokens)




lemma ex_strip2: "stripNewline (''-f in.txt -w'' @ [NL]) = Inr ''-f in.txt -w''"
  by code_simp


lemma ex_tokens2: "spaceTokens ''-f in.txt -w'' = [''-f'', ''in.txt'', ''-w'']"
  by code_simp


lemma ex_parse2: "parseArguments [''MADCounter'', ''-f'', ''in.txt'', ''-w''] st =
    (st, Some (noArguments\<lparr>inputFile := Some ''in.txt'', flagOrder := [FLAG_W],
       requestWordAnalysis := True\<rparr>))"
  by (simp add: parseArguments_def startsWithDash_def noArguments_def)

lemma ex_report: "report (noArguments\<lparr>inputFile := Some ''in.txt'', flagOrder := [FLAG_W],
       requestWordAnalysis := True\<rparr>) (''hello world hello'' @ [NL]) =
     Inr (''Total Number of Words: 3'' @ [NL] @
          ''Total Unique Words: 2'' @ [NL] @ [NL] @
          ''Word: hello, Freq: 2, Initial Position: 0'' @ [NL] @
          ''Word: world, Freq: 1, Initial Position: 1'' @ [NL])"
  by code_simp



subsection \<open>One line of the control file\<close>

text \<open>
  C9, as the code has it. For a buffer read from the control file, with its newline
  stripped: the line is cut at its space characters (and at no other white space) into
  tokens, of which the first 100 are kept. With fewer than two tokens (so also for a
  blank line) the line is skipped: no validation, no message. With two tokens or more,
  \<open>parseArguments\<close> runs on the program name and the tokens and, where it succeeds,
  \<open>analyzeFile\<close> runs on its result.

  As the claim states it (\<open>spec_processLine\<close>: any white space separates tokens, and
  every line that is not blank is validated) it fails: the line "-w" is validated by the
  claim, with the message that no input file was provided, and skipped in silence by the
  code; a line whose arguments are separated by tabs is one token for the code, and
  skipped, where the claim runs the analysis.
\<close>

theorem line_processing:
  "stripNewline buffer = Inr line \<Longrightarrow>
   processLine buffer st =
     (let tokens = take 100 (spaceTokens line)
      in if length tokens < 2 then Inr st
         else (case parseArguments (''MADCounter'' # tokens) st of
                 (st', None) \<Rightarrow> Inr st'
               | (st', Some r) \<Rightarrow>
                   (case analyzeFile r st' of
                      Inl f \<Rightarrow> Inl f
                    | Inr (st'', analyzeResult) \<Rightarrow> Inr st'')))"
  by (rule processLine_tokens)

theorem line_processing_witness:
  "processLine (''-f in.txt -w'' @ [NL]) (world_with [(''in.txt'', ''hello world hello'' @ [NL])]) =
   Inr ((world_with [(''in.txt'', ''hello world hello'' @ [NL])])
         \<lparr>stdout :=
            ''Total Number of Words: 3'' @ [NL] @
            ''Total Unique Words: 2'' @ [NL] @ [NL] @
            ''Word: hello, Freq: 2, Initial Position: 0'' @ [NL] @
            ''Word: world, Freq: 1, Initial Position: 1'' @ [NL]\<rparr>) \<and>
   processLine [NL] (world_with [(''in.txt'', ''hello world hello'' @ [NL])]) =
   Inr (world_with [(''in.txt'', ''hello world hello'' @ [NL])])"
proof -
  let ?w = "world_with [(''in.txt'', ''hello world hello'' @ [NL])]"
  let ?r = "noArguments\<lparr>inputFile := Some ''in.txt'', flagOrder := [FLAG_W],
       requestWordAnalysis := True\<rparr>"
  let ?text = "''Total Number of Words: 3'' @ [NL] @
          ''Total Unique Words: 2'' @ [NL] @ [NL] @
          ''Word: hello, Freq: 2, Initial Position: 0'' @ [NL] @
          ''Word: world, Freq: 1, Initial Position: 1'' @ [NL]"
  have f: "files ?w ''in.txt'' = Some (''hello world hello'' @ [NL])" and s: "stdout ?w = []"
    by (simp_all add: world_with_def)
  have a: "analyzeFile ?r ?w = Inr (printf ?text ?w, 1)"
    using f ex_report by (simp add: analyzeFile_def noArguments_def)
  have e: "printf ?text ?w = ?w\<lparr>stdout := ?text\<rparr>"
    by (simp add: printf_def world_with_def)
  have tk: "take 100 (spaceTokens ''-f in.txt -w'') = [''-f'', ''in.txt'', ''-w'']"
    by (simp add: ex_tokens2)
  have ln: "\<not> length [''-f'', ''in.txt'', ''-w''] < 2" by simp
  have 1: "processLine (''-f in.txt -w'' @ [NL]) ?w = Inr (?w\<lparr>stdout := ?text\<rparr>)"
    by (simp only: line_processing [OF ex_strip2] tk Let_def ln if_False ex_parse2
        prod.case option.case a sum.case e)
  have b: "stripNewline [NL] = Inr []" by code_simp
  have 2: "processLine [NL] ?w = Inr ?w"
    using line_processing [OF b, of ?w] by (simp add: spaceTokens_def)
  from 1 2 show ?thesis by (simp only: simp_thms)
qed

theorem line_processing_counterexample:
  "processLine (''-w'' @ [NL]) (world_with [(''in.txt'', ''hello world hello'' @ [NL])]) =
     Inr (world_with [(''in.txt'', ''hello world hello'' @ [NL])]) \<and>
   spec_processLine ''-w'' (world_with [(''in.txt'', ''hello world hello'' @ [NL])]) =
     Inr ((world_with [(''in.txt'', ''hello world hello'' @ [NL])])
           \<lparr>stdout := ''ERROR: No Input File Provided'' @ [NL]\<rparr>) \<and>
   processLine (''-w'' @ [NL]) (world_with [(''in.txt'', ''hello world hello'' @ [NL])]) \<noteq>
     spec_processLine ''-w'' (world_with [(''in.txt'', ''hello world hello'' @ [NL])]) \<and>
   processLine (''-f'' @ [TAB] @ ''in.txt'' @ [TAB] @ ''-w'' @ [NL])
       (world_with [(''in.txt'', ''hello world hello'' @ [NL])]) =
     Inr (world_with [(''in.txt'', ''hello world hello'' @ [NL])]) \<and>
   spec_processLine (''-f'' @ [TAB] @ ''in.txt'' @ [TAB] @ ''-w'')
       (world_with [(''in.txt'', ''hello world hello'' @ [NL])]) =
     Inr ((world_with [(''in.txt'', ''hello world hello'' @ [NL])])
           \<lparr>stdout :=
              ''Total Number of Words: 3'' @ [NL] @
              ''Total Unique Words: 2'' @ [NL] @ [NL] @
              ''Word: hello, Freq: 2, Initial Position: 0'' @ [NL] @
              ''Word: world, Freq: 1, Initial Position: 1'' @ [NL]\<rparr>)"
proof -
  let ?w = "world_with [(''in.txt'', ''hello world hello'' @ [NL])]"
  let ?r = "noArguments\<lparr>inputFile := Some ''in.txt'', flagOrder := [FLAG_W],
       requestWordAnalysis := True\<rparr>"
  let ?text = "''Total Number of Words: 3'' @ [NL] @
          ''Total Unique Words: 2'' @ [NL] @ [NL] @
          ''Word: hello, Freq: 2, Initial Position: 0'' @ [NL] @
          ''Word: world, Freq: 1, Initial Position: 1'' @ [NL]"
  let ?tabs = "''-f'' @ [TAB] @ ''in.txt'' @ [TAB] @ ''-w''"
  have f: "files ?w ''in.txt'' = Some (''hello world hello'' @ [NL])" and s: "stdout ?w = []"
    by (simp_all add: world_with_def)
  have s1: "stripNewline (''-w'' @ [NL]) = Inr ''-w''" by code_simp
  have t1: "spaceTokens ''-w'' = [''-w'']" by code_simp
  have 1: "processLine (''-w'' @ [NL]) ?w = Inr ?w"
    by (rule processLine_skip [OF s1 t1]) simp
  have w1: "whitespaceTokens ''-w'' = [''-w'']" by code_simp
  have p1: "parseArguments [''MADCounter'', ''-w''] ?w = (printNoInputFileError ?w, None)"
    by (simp add: parseArguments_def startsWithDash_def noArguments_def)
  have e1: "printNoInputFileError ?w = ?w\<lparr>stdout := ''ERROR: No Input File Provided'' @ [NL]\<rparr>"
    by (simp add: printNoInputFileError_def printf_def world_with_def)
  have n1: "''-w'' \<noteq> []" by simp
  have 2: "spec_processLine ''-w'' ?w =
     Inr (?w\<lparr>stdout := ''ERROR: No Input File Provided'' @ [NL]\<rparr>)"
    unfolding spec_processLine_def
    by (simp only: n1 if_False w1 p1 prod.case option.case e1)
  have "stdout (?w\<lparr>stdout := ''ERROR: No Input File Provided'' @ [NL]\<rparr>) \<noteq> stdout ?w"
    by (simp add: world_with_def)
  then have "?w\<lparr>stdout := ''ERROR: No Input File Provided'' @ [NL]\<rparr> \<noteq> ?w"
    by (rule contrapos_nn) (erule arg_cong)
  then have 3: "processLine (''-w'' @ [NL]) ?w \<noteq> spec_processLine ''-w'' ?w"
    by (simp only: 1 2 sum.inject) (rule not_sym)
  have s2: "stripNewline (?tabs @ [NL]) = Inr ?tabs" by code_simp
  have t2: "spaceTokens ?tabs = [?tabs]" by code_simp
  have 4: "processLine (?tabs @ [NL]) ?w = Inr ?w"
    using processLine_skip [OF s2 t2, of ?w] by simp
  have w2: "whitespaceTokens ?tabs = [''-f'', ''in.txt'', ''-w'']" by code_simp
  have a: "analyzeFile ?r ?w = Inr (printf ?text ?w, 1)"
    using f ex_report by (simp add: analyzeFile_def noArguments_def)
  have e2: "printf ?text ?w = ?w\<lparr>stdout := ?text\<rparr>"
    by (simp add: printf_def world_with_def)
  have n: "?tabs \<noteq> []" by simp
  have 5: "spec_processLine ?tabs ?w = Inr (?w\<lparr>stdout := ?text\<rparr>)"
    unfolding spec_processLine_def
    by (simp only: n if_False w2 ex_parse2 prod.case option.case a sum.case e2)
  from 1 2 3 4 5 show ?thesis by (simp only: simp_thms append_assoc)
qed

section \<open>The longest tokens\<close>

subsection \<open>The exchange sort\<close>

text \<open>After the inner loop for \<open>i\<close>, position \<open>i\<close> holds a text that is least among the
  positions from \<open>i\<close> on; after the outer loop the array is sorted by text. Both loops
  only swap entries.\<close>

lemma mset_swapIfGreater:
  "i < length a \<Longrightarrow> j < length a \<Longrightarrow> mset (swapIfGreater a i j) = mset a"
  using mset_swap [of j a i] by (simp add: swapIfGreater_def)

lemma nth_swapIfGreater_other:
  "k \<noteq> i \<Longrightarrow> k \<noteq> j \<Longrightarrow> swapIfGreater a i j ! k = a ! k"
  by (simp add: swapIfGreater_def)

lemma swapIfGreater_min:
  "i < length a \<Longrightarrow> j < length a \<Longrightarrow> i \<noteq> j \<Longrightarrow>
   contents (swapIfGreater a i j ! i) \<le> contents (a ! i) \<and>
   contents (swapIfGreater a i j ! i) \<le> contents (swapIfGreater a i j ! j)"
  by (auto simp: swapIfGreater_def strcmp_greater)

lemma take_swapIfGreater: "i \<le> j \<Longrightarrow> take i (swapIfGreater a i j) = take i a"
  by (simp add: swapIfGreater_def)

lemma sortInner_props:
  "i < j \<Longrightarrow> i < length a \<Longrightarrow>
   \<forall>k. i < k \<and> k < j \<and> k < length a \<longrightarrow> contents (a ! i) \<le> contents (a ! k) \<Longrightarrow>
   mset (sortInner a i j) = mset a \<and> take i (sortInner a i j) = take i a \<and>
   (\<forall>k. i < k \<and> k < length a \<longrightarrow>
      contents (sortInner a i j ! i) \<le> contents (sortInner a i j ! k))"
proof (induction a i j rule: sortInner.induct)
  case (1 a i j)
  show ?case
  proof (cases "j < length a")
    case False
    with "1.prems" show ?thesis
      by (subst (1 2 3 4) sortInner.simps) auto
  next
    case True
    let ?b = "swapIfGreater a i j"
    from "1.prems" True have ij: "i \<noteq> j" and il: "i < length a" by simp_all
    note m = swapIfGreater_min [OF il True ij]
    have pre: "\<forall>k. i < k \<and> k < j + 1 \<and> k < length ?b \<longrightarrow> contents (?b ! i) \<le> contents (?b ! k)"
    proof (intro allI impI)
      fix k assume k: "i < k \<and> k < j + 1 \<and> k < length ?b"
      show "contents (?b ! i) \<le> contents (?b ! k)"
      proof (cases "k = j")
        case True
        with m show ?thesis by simp
      next
        case False
        with k have kj: "k < j" by simp
        with k have "?b ! k = a ! k" by (intro nth_swapIfGreater_other) simp_all
        moreover from "1.prems"(3) k kj have "contents (a ! i) \<le> contents (a ! k)" by simp
        ultimately show ?thesis using m by (metis order_trans)
      qed
    qed
    from "1.prems" have "i < j + 1" "i < length ?b" by simp_all
    from "1.IH" [OF True this pre]
    have ih: "mset (sortInner ?b i (j + 1)) = mset ?b"
      "take i (sortInner ?b i (j + 1)) = take i ?b"
      "\<forall>k. i < k \<and> k < length ?b \<longrightarrow>
         contents (sortInner ?b i (j + 1) ! i) \<le> contents (sortInner ?b i (j + 1) ! k)"
      by simp_all
    have e: "sortInner a i j = sortInner ?b i (j + 1)"
      using True by (subst sortInner.simps) simp
    from "1.prems" have "i \<le> j" by simp
    with ih show ?thesis
      unfolding e by (simp add: mset_swapIfGreater [OF il True] take_swapIfGreater)
  qed
qed

lemma sortOuter_props:
  "sorted (map contents (take i a)) \<Longrightarrow>
   \<forall>x \<in> set (take i a). \<forall>y \<in> set (drop i a). contents x \<le> contents y \<Longrightarrow>
   mset (sortOuter a i) = mset a \<and> sorted (map contents (sortOuter a i))"
proof (induction a i rule: sortOuter.induct)
  case (1 a i)
  show ?case
  proof (cases "i + 1 < length a")
    case False
    have s: "sorted (map contents a)"
    proof (cases "length a \<le> i")
      case True
      with "1.prems"(1) show ?thesis by simp
    next
      case False
      with \<open>\<not> i + 1 < length a\<close> have i: "Suc i = length a" by simp
      then have sp: "take i a @ [a ! i] = a"
        by (metis lessI take_Suc_conv_app_nth take_all order_refl)
      have ds: "drop i a = [a ! i]"
        using i by (metis Cons_nth_drop_Suc drop_all lessI order_refl)
      from "1.prems"(2) have le: "\<forall>x \<in> set (take i a). contents x \<le> contents (a ! i)"
        by (simp add: ds)
      have f: "sorted (map contents (take i a @ [a ! i]))"
        using "1.prems"(1) le by (simp add: sorted_append)
      show ?thesis by (subst sp [symmetric]) (rule f)
    qed
    with False show ?thesis by (subst (1 2) sortOuter.simps) simp
  next
    case True
    let ?b = "sortInner a i (i + 1)"
    from True have il: "i < length a" by simp
    have "mset ?b = mset a \<and> take i ?b = take i a \<and>
      (\<forall>k. i < k \<and> k < length a \<longrightarrow> contents (?b ! i) \<le> contents (?b ! k))"
      by (rule sortInner_props) (use il in auto)
    then have mb: "mset ?b = mset a" and tb: "take i ?b = take i a"
      and mn: "\<forall>k. i < k \<and> k < length a \<longrightarrow> contents (?b ! i) \<le> contents (?b ! k)"
      by simp_all
    have "mset (take i ?b) + mset (drop i ?b) = mset (take i a) + mset (drop i a)"
      using mb by (metis append_take_drop_id mset_append)
    with tb have "mset (drop i ?b) = mset (drop i a)" by simp
    then have sd: "set (drop i ?b) = set (drop i a)" by (rule mset_eq_setD)
    have bi: "?b ! i \<in> set (drop i ?b)"
      using il by (metis Cons_nth_drop_Suc length_sortInner list.set_intros(1))
    have t1: "take (Suc i) ?b = take i a @ [?b ! i]"
      using il tb by (simp add: take_Suc_conv_app_nth)
    from bi sd "1.prems"(2) have "\<forall>x \<in> set (take i a). contents x \<le> contents (?b ! i)"
      by blast
    with "1.prems"(1) have "sorted (map contents (take i a @ [?b ! i]))"
      by (simp add: sorted_append)
    then have "sorted (map contents (take (Suc i) ?b))"
      by (simp only: t1)
    then have p1: "sorted (map contents (take (i + 1) ?b))" by simp
    have p2: "\<forall>x \<in> set (take (i + 1) ?b). \<forall>y \<in> set (drop (i + 1) ?b). contents x \<le> contents y"
    proof (intro ballI)
      fix x y assume x: "x \<in> set (take (i + 1) ?b)" and y: "y \<in> set (drop (i + 1) ?b)"
      from y have y': "y \<in> set (drop i ?b)"
        by (metis add.commute drop_drop in_set_dropD plus_1_eq_Suc)
      from y obtain k where k: "y = ?b ! k" "i + 1 \<le> k" "k < length a"
        by (auto simp: in_set_conv_nth)
      from x have "x \<in> set (take (Suc i) ?b)" by simp
      then have "x \<in> set (take i a) \<or> x = ?b ! i" by (auto simp only: t1 set_append set_simps)
      then show "contents x \<le> contents y"
      proof
        assume "x \<in> set (take i a)"
        with "1.prems"(2) y' sd show ?thesis by auto
      next
        assume "x = ?b ! i"
        with mn k show ?thesis by simp
      qed
    qed
    from "1.IH" [OF True p1 p2] mb True show ?thesis
      by (subst (1 2) sortOuter.simps) simp
  qed
qed

lemma sortOuter_sort: "map contents (sortOuter a 0) = sort (map contents a)"
proof -
  have "mset (sortOuter a 0) = mset a \<and> sorted (map contents (sortOuter a 0))"
    by (rule sortOuter_props) simp_all
  then have "mset (map contents (sortOuter a 0)) = mset (map contents a)"
    and "sorted (map contents (sortOuter a 0))"
    by simp_all
  then show ?thesis by (rule properties_for_sort [symmetric])
qed

subsection \<open>The three passes\<close>

text \<open>When at most 1000 entries have the greatest length, the output names that length
  and lists the texts of exactly those entries, in ascending order, whatever the order
  of the collection (\<open>longest_within_capacity\<close>); entries are taken as \<open>allocNode\<close>
  makes them, \<open>numChars\<close> being the length of the text.\<close>

lemma maxLengthLoop_Cons:
  "maxLengthLoop (x # xs) m = maxLengthLoop xs (max m (numChars x))"
  by (simp add: max_def)

lemma maxLengthLoop_Max:
  "maxLengthLoop c m = Max (insert m (numChars ` set c))"
proof (induction c arbitrary: m)
  case Nil
  show ?case by simp
next
  case (Cons x xs)
  have "Max (insert (max m (numChars x)) (numChars ` set xs)) =
        Max (insert m (insert (numChars x) (numChars ` set xs)))"
    by (cases "xs = []") (simp_all add: max.assoc)
  then show ?case
    by (simp only: maxLengthLoop_Cons Cons list.set image_insert)
qed

lemma maxLengthLoop_wellformed:
  assumes "c \<noteq> []" and "\<forall>e \<in> set c. 0 \<le> numChars e"
  shows "maxLengthLoop c 0 = Max (numChars ` set c)"
proof -
  from assms have "0 \<le> Max (numChars ` set c)"
    by (cases c) (auto simp: Max_ge_iff)
  with assms(1) show ?thesis
    by (simp add: maxLengthLoop_Max max_def)
qed

lemma collectLoop_fits:
  "length acc + length (filter (\<lambda>e. numChars e = m) c) \<le> LONGEST_CAPACITY \<Longrightarrow>
   collectLoop c m acc = Inr (acc @ filter (\<lambda>e. numChars e = m) c)"
  by (induction c arbitrary: acc) auto

lemma collectLoop_overflow:
  "LONGEST_CAPACITY < length acc + length (filter (\<lambda>e. numChars e = m) c) \<Longrightarrow>
   length acc \<le> LONGEST_CAPACITY \<Longrightarrow> collectLoop c m acc = Inl BufferOverflow"
  by (induction c arbitrary: acc) auto

lemma longest_lines_sorted:
  "concat (map (\<lambda>w. TAB # contents w @ [NL]) (sortOuter a 0)) =
   concat (map (\<lambda>s. TAB # s @ [NL]) (sort (map contents a)))"
proof -
  have "map (\<lambda>w. TAB # contents w @ [NL]) (sortOuter a 0) =
        map (\<lambda>s. TAB # s @ [NL]) (map contents (sortOuter a 0))"
    by (simp add: comp_def)
  then show ?thesis by (simp only: sortOuter_sort)
qed

lemma longest_within_capacity:
  assumes ne: "c \<noteq> []" and wf: "\<forall>e \<in> set c. numChars e = int (length (contents e))"
    and cap: "length (filter (\<lambda>e. numChars e = Max (numChars ` set c)) c) \<le> 1000"
  shows "printLongestWord c =
      Inr (''Longest Word is '' @ show_int (Max (numChars ` set c)) @ '' characters long:'' @ [NL] @
           concat (map (\<lambda>s. [TAB] @ s @ [NL])
             (sort (map contents (filter (\<lambda>e. numChars e = Max (numChars ` set c)) c)))))"
    and "printLongestLine c =
      Inr (''Longest Line is '' @ show_int (Max (numChars ` set c)) @ '' characters long:'' @ [NL] @
           concat (map (\<lambda>s. [TAB] @ s @ [NL])
             (sort (map contents (filter (\<lambda>e. numChars e = Max (numChars ` set c)) c)))))"
proof -
  from wf have "\<forall>e \<in> set c. 0 \<le> numChars e" by simp
  with ne have m: "maxLengthLoop c 0 = Max (numChars ` set c)"
    by (rule maxLengthLoop_wellformed)
  from cap have "collectLoop c (Max (numChars ` set c)) [] =
     Inr ([] @ filter (\<lambda>e. numChars e = Max (numChars ` set c)) c)"
    by (intro collectLoop_fits) (simp add: LONGEST_CAPACITY_def)
  then have cl: "collectLoop c (Max (numChars ` set c)) [] =
     Inr (filter (\<lambda>e. numChars e = Max (numChars ` set c)) c)" by simp
  from ne show "printLongestWord c =
      Inr (''Longest Word is '' @ show_int (Max (numChars ` set c)) @ '' characters long:'' @ [NL] @
           concat (map (\<lambda>s. [TAB] @ s @ [NL])
             (sort (map contents (filter (\<lambda>e. numChars e = Max (numChars ` set c)) c)))))"
    by (simp add: printLongestWord_def m cl longest_lines_sorted)
  from ne show "printLongestLine c =
      Inr (''Longest Line is '' @ show_int (Max (numChars ` set c)) @ '' characters long:'' @ [NL] @
           concat (map (\<lambda>s. [TAB] @ s @ [NL])
             (sort (map contents (filter (\<lambda>e. numChars e = Max (numChars ` set c)) c)))))"
    by (simp add: printLongestLine_def m cl longest_lines_sorted)
qed

lemma length_digits4: "1000 \<le> n \<Longrightarrow> n < 10000 \<Longrightarrow> length (digits n) = 4"
proof -
  assume a: "1000 \<le> n" "n < 10000"
  then have 1: "\<not> n < 10" and 2: "\<not> n div 10 < 10" and 3: "\<not> n div 10 div 10 < 10"
    and 4: "n div 10 div 10 div 10 < 10"
    by arith+
  have "digits n = digits (n div 10) @ [char_of (48 + n mod 10)]"
    using 1 by (subst digits.simps) simp
  moreover have "digits (n div 10) = digits (n div 10 div 10) @ [char_of (48 + n div 10 mod 10)]"
    using 2 by (subst digits.simps) simp
  moreover have "digits (n div 10 div 10) =
     digits (n div 10 div 10 div 10) @ [char_of (48 + n div 10 div 10 mod 10)]"
    using 3 by (subst digits.simps) simp
  moreover have "digits (n div 10 div 10 div 10) = [char_of (48 + n div 10 div 10 div 10)]"
    using 4 by (subst digits.simps) simp
  ultimately show ?thesis by simp
qed

lemma thousandAndOne_numChars: "\<forall>e \<in> set thousandAndOne. numChars e = 4"
  by (auto simp: thousandAndOne_def allocNode_def length_digits4)

lemma maxLengthLoop_const:
  "c \<noteq> [] \<Longrightarrow> \<forall>e \<in> set c. numChars e = k \<Longrightarrow> m \<le> k \<Longrightarrow> maxLengthLoop c m = k"
proof -
  assume "c \<noteq> []" "\<forall>e \<in> set c. numChars e = k" "m \<le> k"
  then have "numChars ` set c = {k}" by (cases c) auto
  with \<open>m \<le> k\<close> show ?thesis by (simp add: maxLengthLoop_Max)
qed

text \<open>
  C3. For a collection that is not empty the longest-token output should report the
  greatest entry length and list exactly the entries of that length in ascending
  lexicographic order, and for the empty collection print nothing. The code does so
  while at most 1000 entries have the greatest length (\<open>longest_within_capacity\<close>, and
  \<open>printLongestWord [] = Inr []\<close> by definition). With 1001 entries of the greatest
  length, as for the words 1000 to 2000, the 1001st pointer is stored behind the end of
  the array of 1000: \<open>printLongestWord\<close> and \<open>printLongestLine\<close> fault.
\<close>

theorem longest_overflow:
  "printLongestWord thousandAndOne = Inl BufferOverflow \<and>
   printLongestLine thousandAndOne = Inl BufferOverflow"
proof -
  have l: "length thousandAndOne = 1001" by (simp add: thousandAndOne_def)
  then have ne: "thousandAndOne \<noteq> []" by auto
  have m: "maxLengthLoop thousandAndOne 0 = 4"
    by (rule maxLengthLoop_const [OF ne thousandAndOne_numChars]) simp
  have "filter (\<lambda>e. numChars e = 4) thousandAndOne = thousandAndOne"
    using thousandAndOne_numChars by (simp add: filter_id_conv)
  with l have "collectLoop thousandAndOne 4 [] = Inl BufferOverflow"
    by (intro collectLoop_overflow) (simp_all add: LONGEST_CAPACITY_def)
  with ne m show ?thesis
    by (simp add: printLongestWord_def printLongestLine_def)
qed

section \<open>The sections of the report\<close>

subsection \<open>The order list\<close>

lemma filter_firstOccurrences_drop:
  "filter (\<lambda>y. y \<noteq> x) (firstOccurrences (us @ x # vs)) =
   filter (\<lambda>y. y \<noteq> x) (firstOccurrences (us @ vs))"
proof (induction us)
  case Nil
  show ?case by simp
next
  case (Cons u us)
  let ?A = "firstOccurrences (us @ x # vs)" and ?B = "firstOccurrences (us @ vs)"
  have h: "filter (\<lambda>y. y \<noteq> x) (filter (\<lambda>y. y \<noteq> u) zs) =
           filter (\<lambda>y. y \<noteq> u) (filter (\<lambda>y. y \<noteq> x) zs)" for zs
    by (induction zs) auto
  have "filter (\<lambda>y. y \<noteq> x) (filter (\<lambda>y. y \<noteq> u) ?A) =
        filter (\<lambda>y. y \<noteq> u) (filter (\<lambda>y. y \<noteq> x) ?A)"
    by (rule h)
  also have "\<dots> = filter (\<lambda>y. y \<noteq> u) (filter (\<lambda>y. y \<noteq> x) ?B)"
    by (simp only: Cons)
  also have "\<dots> = filter (\<lambda>y. y \<noteq> x) (filter (\<lambda>y. y \<noteq> u) ?B)"
    by (rule h [symmetric])
  finally have e: "filter (\<lambda>y. y \<noteq> x) (filter (\<lambda>y. y \<noteq> u) ?A) =
                   filter (\<lambda>y. y \<noteq> x) (filter (\<lambda>y. y \<noteq> u) ?B)" .
  show ?case
    by (simp only: append_Cons firstOccurrences.simps filter.simps e)
qed

lemma firstOccurrences_again:
  "x \<in> set xs \<Longrightarrow> firstOccurrences (xs @ x # ys) = firstOccurrences (xs @ ys)"
proof (induction xs)
  case Nil
  then show ?case by simp
next
  case (Cons a xs)
  show ?case
  proof (cases "a = x")
    case True
    then show ?thesis by (simp add: filter_firstOccurrences_drop)
  next
    case False
    with Cons show ?thesis by simp
  qed
qed

lemma firstOccurrences_step:
  "firstOccurrences ((if x \<notin> set xs then xs @ [x] else xs) @ ys) = firstOccurrences (xs @ x # ys)"
  by (simp add: firstOccurrences_again)


lemma map_filter_Cons_None: "f x = None \<Longrightarrow> List.map_filter f (x # xs) = List.map_filter f xs"
  by (simp add: List.map_filter_simps)

lemma map_filter_Cons_Some: "f x = Some y \<Longrightarrow> List.map_filter f (x # xs) = y # List.map_filter f xs"
  by (simp add: List.map_filter_simps)


text \<open>One round of the loop for an analysis flag.\<close>

lemma flag_round:
  assumes ag: "agrees a" and rq: "rq = (k \<in> set (flagOrder a))"
    and a2: "flagOrder a2 = (if \<not> rq then flagOrder a @ [k] else flagOrder a)"
    and ih: "agrees a2 \<longrightarrow> agrees a3 \<and> flagOrder a3 = firstOccurrences (flagOrder a2 @ rest)"
    and ag2: "agrees a2"
  shows "agrees a3 \<and> flagOrder a3 = firstOccurrences (flagOrder a @ k # rest)"
proof -
  from a2 rq have "flagOrder a2 = (if k \<notin> set (flagOrder a) then flagOrder a @ [k] else flagOrder a)"
    by simp
  then have "firstOccurrences (flagOrder a2 @ rest) = firstOccurrences (flagOrder a @ k # rest)"
    by (simp only: firstOccurrences_step)
  with ih ag2 show ?thesis by simp
qed





subsection \<open>The sections and their separation\<close>






















end
